theory Spec2Isabelle
  imports Main "HOL-Library.Word"
begin

unbundle bit_operations_syntax

section \<open>AES-CMAC of \<^verbatim>\<open>src/crypto/cmac.js\<close>\<close>

text \<open>
  The module works on \<^verbatim>\<open>Uint8Array\<close>s, which it mutates in place and passes around by
  reference. An element is an 8-bit word; a store maps references to the contents of the
  arrays allocated so far. \<^verbatim>\<open>async\<close>/\<^verbatim>\<open>await\<close> is read sequentially: every awaited
  call is completed before the next statement runs.

  Every array of the store has a buffer of its own. That is so for the arrays the module
  allocates (\<^verbatim>\<open>new Uint8Array(n)\<close>, \<^verbatim>\<open>slice()\<close>, the ciphertexts). An array of the caller can
  be a view over an \<^verbatim>\<open>ArrayBuffer\<close> that other views share; a write through it is then seen
  by those views as well, which the store does not show. The properties below speak of the
  array a function is given and of the arrays the module allocates, never of other views
  over the caller's buffer.
\<close>

subsection \<open>Typed arrays in a store\<close>

type_synonym byte = "8 word"
type_synonym bytes = "byte list"
type_synonym ref = nat

record heap =
  arr :: "ref \<Rightarrow> bytes"
  nxt :: ref

text \<open>
  \<^verbatim>\<open>a[i]\<close> read by a bitwise operator: an index outside the array gives \<^verbatim>\<open>undefined\<close>,
  which \<^verbatim>\<open>&\<close>, \<^verbatim>\<open>^\<close> and \<^verbatim>\<open><<\<close> coerce to 0. Every element read of the module feeds
  such an operator. The index is an integer, since \<^verbatim>\<open>i + offset\<close> can be negative.
\<close>

definition rd :: "heap \<Rightarrow> ref \<Rightarrow> int \<Rightarrow> byte" where
  "rd h r i = (if 0 \<le> i \<and> i < int (length (arr h r)) then arr h r ! nat i else 0)"

text \<open>
  \<^verbatim>\<open>a[i] = v\<close>: the value is stored modulo 256 (the 8-bit word), and a write outside the
  array is ignored.
\<close>

definition wr :: "heap \<Rightarrow> ref \<Rightarrow> int \<Rightarrow> byte \<Rightarrow> heap" where
  "wr h r i v =
     (if 0 \<le> i \<and> i < int (length (arr h r))
      then h\<lparr>arr := (arr h)(r := (arr h r)[nat i := v])\<rparr> else h)"

text \<open>A new array with the given contents, at a reference not used before.\<close>

definition new_array :: "heap \<Rightarrow> bytes \<Rightarrow> heap \<times> ref" where
  "new_array h bs = (h\<lparr>arr := (arr h)(nxt h := bs), nxt := Suc (nxt h)\<rparr>, nxt h)"

text \<open>
  \<^verbatim>\<open>dst.set(src)\<close> copies \<open>src\<close> to the front of \<open>dst\<close>. JavaScript throws a RangeError when
  \<open>src\<close> is longer than \<open>dst\<close>; \<open>pad\<close> only calls it with a longer \<open>dst\<close>.
\<close>

definition set_array :: "heap \<Rightarrow> ref \<Rightarrow> ref \<Rightarrow> heap" where
  "set_array h dst src =
     (if length (arr h src) \<le> length (arr h dst)
      then h\<lparr>arr := (arr h)(dst := arr h src @ drop (length (arr h src)) (arr h dst))\<rparr>
      else h)"

text \<open>\<^verbatim>\<open>a.slice()\<close>: a copy in a new array.\<close>

definition slice :: "heap \<Rightarrow> ref \<Rightarrow> heap \<times> ref" where
  "slice h r = new_array h (arr h r)"

subsection \<open>Block algebra\<close>

definition blockLength :: nat where
  "blockLength = 16"

text \<open>
  \<^verbatim>\<open>rightXorMut(data, padding)\<close>: the loop reads and writes the store at every step, so the
  model also covers \<open>data\<close> and \<open>padding\<close> being the same array.
\<close>

definition rightXorMut :: "heap \<Rightarrow> ref \<Rightarrow> ref \<Rightarrow> heap \<times> ref" where
  "rightXorMut h data padding =
     (let offset = int (length (arr h data)) - int blockLength
      in (fold (\<lambda>i h. wr h data (int i + offset)
                         (rd h data (int i + offset) XOR rd h padding (int i)))
            [0..<blockLength] h,
          data))"

text \<open>
  \<^verbatim>\<open>mul2(data)\<close>. \<^verbatim>\<open>(data[i] << 1) ^ c\<close> is a 32-bit value whose low eight bits are stored:
  on 8-bit words that is \<open>push_bit 1\<close> followed by \<open>XOR\<close>.
\<close>

definition mul2 :: "heap \<Rightarrow> ref \<Rightarrow> heap \<times> ref" where
  "mul2 h data =
     (let t = rd h data 0 AND 0x80;
          h1 = fold (\<lambda>i h. wr h data (int i)
                             (push_bit 1 (rd h data (int i))
                                XOR (if rd h data (int i + 1) AND 0x80 \<noteq> 0 then 1 else 0)))
                 [0..<15] h
      in (wr h1 data 15 (push_bit 1 (rd h1 data 15) XOR (if t \<noteq> 0 then 0x87 else 0)), data))"

text \<open>
  The same function, recording the outcome of every conditional expression it evaluates
  (the two \<^verbatim>\<open>? :\<close> of lines 61 and 63), in the order of evaluation.
\<close>

definition mul2_traced :: "heap \<Rightarrow> ref \<Rightarrow> (heap \<times> ref) \<times> bool list" where
  "mul2_traced h data =
     (let t = rd h data 0 AND 0x80;
          (h1, tr) = fold (\<lambda>i (h, tr).
                        (wr h data (int i)
                           (push_bit 1 (rd h data (int i))
                              XOR (if rd h data (int i + 1) AND 0x80 \<noteq> 0 then 1 else 0)),
                         tr @ [rd h data (int i + 1) AND 0x80 \<noteq> 0]))
                      [0..<15] (h, [])
      in ((wr h1 data 15 (push_bit 1 (rd h1 data 15) XOR (if t \<noteq> 0 then 0x87 else 0)), data),
          tr @ [t \<noteq> 0]))"

subsection \<open>Padding\<close>

definition pad :: "heap \<Rightarrow> ref \<Rightarrow> ref \<Rightarrow> ref \<Rightarrow> heap \<times> ref" where
  "pad h data padding padding2 =
     (let len = length (arr h data) in
      if len mod blockLength = 0 then rightXorMut h data padding
      else
        (let (h1, padded) = new_array h (replicate (len + (blockLength - len mod blockLength)) 0);
             h2 = set_array h1 padded data;
             h3 = wr h2 padded (int len) 0x80
         in rightXorMut h3 padded padding2))"

definition zeroBlock :: bytes where
  "zeroBlock = replicate blockLength 0"


subsection \<open>The cipher providers\<close>

text \<open>
  The block cipher itself is not part of the module: \<open>CBC\<close> calls WebCrypto, Node's crypto
  library or asmcrypto.js. The block encryption is a parameter \<open>E\<close> of the model, with
  \<open>E key block\<close> the encryption of one 16-byte block.
\<close>

type_synonym block_cipher = "bytes \<Rightarrow> bytes \<Rightarrow> bytes"

datatype error = InvalidKeyLength | MalformedInput

definition xor_bytes :: "bytes \<Rightarrow> bytes \<Rightarrow> bytes" where
  "xor_bytes xs ys = map2 (XOR) xs ys"

text \<open>
  Modelled from the spec: the external capability \<open>encryptCbcZeroIv\<close> of section 6.
  Standard CBC chaining: each plaintext block is XORed with the previous ciphertext block
  (the initialisation vector for the first) and encrypted. Only complete blocks are
  processed.
\<close>

function cbc_chain :: "(bytes \<Rightarrow> bytes) \<Rightarrow> bytes \<Rightarrow> bytes \<Rightarrow> bytes" where
  "cbc_chain f iv pt =
     (if length pt < 16 then []
      else (let c = f (xor_bytes iv (take 16 pt)) in c @ cbc_chain f c (drop 16 pt)))"
  by pat_completeness auto
termination
  by (relation "measure (\<lambda>(f, iv, pt). length pt)") auto

declare cbc_chain.simps [simp del]

text \<open>
  Modelled from the spec: the key sizes the providers accept (sections 3 and 7: a key is
  16, 24 or 32 bytes, anything else is \<open>InvalidKeyLength\<close>).
\<close>

definition valid_key_length :: "bytes \<Rightarrow> bool" where
  "valid_key_length key \<longleftrightarrow> length key = 16 \<or> length key = 24 \<or> length key = 32"

text \<open>
  Modelled from the spec: WebCrypto. \<^verbatim>\<open>importKey('raw', key, {name: 'AES-CBC'})\<close> rejects a
  key of another size; \<^verbatim>\<open>encrypt\<close> with AES-CBC appends PKCS#7 padding (1 to 16 bytes, each
  holding the number of bytes added) and chains over the result.
\<close>

definition importKey :: "bytes \<Rightarrow> error + bytes" where
  "importKey key = (if valid_key_length key then Inr key else Inl InvalidKeyLength)"

definition pkcs7 :: "bytes \<Rightarrow> bytes" where
  "pkcs7 pt = pt @ replicate (16 - length pt mod 16) (of_nat (16 - length pt mod 16))"

definition webCrypto_encrypt :: "block_cipher \<Rightarrow> bytes \<Rightarrow> bytes \<Rightarrow> bytes" where
  "webCrypto_encrypt E key pt = cbc_chain (E key) zeroBlock (pkcs7 pt)"

text \<open>
  Modelled from the spec: Node. \<^verbatim>\<open>createCipheriv('aes-<bits>-cbc', key, iv)\<close> throws for a
  cipher name it does not know, that is for a key of another size; \<^verbatim>\<open>update\<close> returns the
  encryption of the complete blocks it was given (\<^verbatim>\<open>final\<close> is never called).
\<close>

definition createCipheriv :: "bytes \<Rightarrow> error + bytes" where
  "createCipheriv key = (if valid_key_length key then Inr key else Inl InvalidKeyLength)"

definition cipher_update :: "block_cipher \<Rightarrow> bytes \<Rightarrow> bytes \<Rightarrow> bytes" where
  "cipher_update E key pt = cbc_chain (E key) zeroBlock pt"

text \<open>
  Modelled from the spec: asmcrypto.js. \<^verbatim>\<open>AES_CBC.encrypt(pt, key, false, iv)\<close> rejects a key
  of another size and, padding being off, a plaintext that is not block-aligned.
\<close>

definition AES_CBC_encrypt :: "block_cipher \<Rightarrow> bytes \<Rightarrow> bytes \<Rightarrow> error + bytes" where
  "AES_CBC_encrypt E pt key =
     (if \<not> valid_key_length key then Inl InvalidKeyLength
      else if length pt mod 16 \<noteq> 0 then Inl MalformedInput
      else Inr (cbc_chain (E key) zeroBlock pt))"

text \<open>
  What the model asks of the block encryption under one key: a 16-byte block goes to a
  16-byte block (the block size of AES, whatever the key size).
\<close>

definition block_preserving :: "(bytes \<Rightarrow> bytes) \<Rightarrow> bool" where
  "block_preserving f \<longleftrightarrow> (\<forall>b. length b = 16 \<longrightarrow> length (f b) = 16)"

subsection \<open>\<open>CBC\<close>: choosing a provider\<close>

text \<open>
  \<^verbatim>\<open>util.getWebCryptoAll()\<close> and \<^verbatim>\<open>util.getNodeCrypto()\<close> say which providers the platform
  has. \<open>CBC\<close> returns a closure; the model returns which of the three closures it is,
  with the key it holds (WebCrypto and Node copy the key; the asm.js closure keeps the
  caller's array, taken here by its contents when \<open>CBC\<close> is called).
\<close>

record env =
  webCryptoAll :: bool
  nodeCrypto :: bool

datatype cbc_fn = WebCryptoCBC bytes | NodeCBC bytes | AsmCBC bytes

definition CBC :: "env \<Rightarrow> bytes \<Rightarrow> error + cbc_fn" where
  "CBC e key =
     (if webCryptoAll e \<and> length key \<noteq> 24 then
        (case importKey key of Inl err \<Rightarrow> Inl err | Inr k \<Rightarrow> Inr (WebCryptoCBC k))
      else if nodeCrypto e then Inr (NodeCBC key)
      else Inr (AsmCBC key))"

text \<open>
  Calling the closure on a plaintext. The providers only read the plaintext, so it is
  passed by value; the ciphertext is a new array. The WebCrypto closure cuts the last
  block off (\<^verbatim>\<open>subarray(0, ct.byteLength - blockLength)\<close>).
\<close>

fun call_cbc :: "block_cipher \<Rightarrow> cbc_fn \<Rightarrow> heap \<Rightarrow> bytes \<Rightarrow> error + heap \<times> ref" where
  "call_cbc E (WebCryptoCBC k) h pt =
     (let ct = webCrypto_encrypt E k pt
      in Inr (new_array h (take (length ct - blockLength) ct)))"
| "call_cbc E (NodeCBC k) h pt =
     (case createCipheriv k of
        Inl err \<Rightarrow> Inl err
      | Inr en \<Rightarrow> Inr (new_array h (cipher_update E en pt)))"
| "call_cbc E (AsmCBC k) h pt =
     (case AES_CBC_encrypt E pt k of
        Inl err \<Rightarrow> Inl err
      | Inr ct \<Rightarrow> Inr (new_array h ct))"

subsection \<open>\<open>CMAC\<close>\<close>

text \<open>
  \<open>CMAC key\<close> returns a closure over \<open>cbc\<close>, \<open>padding\<close> and \<open>padding2\<close>: the record \<open>mac\<close>
  holds the three.
  \<open>MacFunction\<close> is the call of that closure on a message; the tag it returns is a view of
  the last \<open>blockLength\<close> bytes of the ciphertext (\<^verbatim>\<open>subarray(-blockLength)\<close>, the whole array
  when it is shorter), given here by its contents.
\<close>

record mac =
  m_cbc :: cbc_fn
  m_padding :: ref
  m_padding2 :: ref

definition CMAC :: "block_cipher \<Rightarrow> env \<Rightarrow> heap \<Rightarrow> bytes \<Rightarrow> error + heap \<times> mac" where
  "CMAC E e h key =
     (case CBC e key of
        Inl err \<Rightarrow> Inl err
      | Inr c \<Rightarrow>
          (case call_cbc E c h zeroBlock of
             Inl err \<Rightarrow> Inl err
           | Inr (h1, l) \<Rightarrow>
               (let (h2, p) = mul2 h1 l;
                    (h3, p') = slice h2 p;
                    (h4, p2) = mul2 h3 p'
                in Inr (h4, \<lparr>m_cbc = c, m_padding = p, m_padding2 = p2\<rparr>))))"

definition MacFunction :: "block_cipher \<Rightarrow> mac \<Rightarrow> heap \<Rightarrow> ref \<Rightarrow> error + heap \<times> bytes" where
  "MacFunction E m h data =
     (let (h1, p) = pad h data (m_padding m) (m_padding2 m) in
      case call_cbc E (m_cbc m) h1 (arr h1 p) of
        Inl err \<Rightarrow> Inl err
      | Inr (h2, ct) \<Rightarrow> Inr (h2, drop (length (arr h2 ct) - blockLength) (arr h2 ct)))"

text \<open>The key a closure of \<open>CBC\<close> holds.\<close>

fun key_of :: "cbc_fn \<Rightarrow> bytes" where
  "key_of (WebCryptoCBC k) = k"
| "key_of (NodeCBC k) = k"
| "key_of (AsmCBC k) = k"

text \<open>The store before anything is allocated.\<close>

definition empty_heap :: heap where
  "empty_heap = \<lparr>arr = (\<lambda>_. []), nxt = 0\<rparr>"

text \<open>
  A caller: the message is put in a new array of the empty store, the key is prepared and
  the closure is called once.
\<close>

definition cmac_of :: "block_cipher \<Rightarrow> env \<Rightarrow> bytes \<Rightarrow> bytes \<Rightarrow> error + bytes" where
  "cmac_of E e key message =
     (let (h0, data) = new_array empty_heap message in
      case CMAC E e h0 key of
        Inl err \<Rightarrow> Inl err
      | Inr (h1, m) \<Rightarrow>
          (case MacFunction E m h1 data of
             Inl err \<Rightarrow> Inl err
           | Inr (h2, tag) \<Rightarrow> Inr tag))"

subsection \<open>Reference AES-128\<close>

text \<open>
  Modelled from the spec: the block cipher behind the known-answer vectors of section 8,
  AES with a 128-bit key as FIPS 197 defines it. The state is the 16-byte block in input
  order (column by column).
\<close>

definition sbox :: "byte list list" where
  "sbox =
     [[0x63, 0x7c, 0x77, 0x7b, 0xf2, 0x6b, 0x6f, 0xc5, 0x30, 0x01, 0x67, 0x2b, 0xfe, 0xd7, 0xab, 0x76],
      [0xca, 0x82, 0xc9, 0x7d, 0xfa, 0x59, 0x47, 0xf0, 0xad, 0xd4, 0xa2, 0xaf, 0x9c, 0xa4, 0x72, 0xc0],
      [0xb7, 0xfd, 0x93, 0x26, 0x36, 0x3f, 0xf7, 0xcc, 0x34, 0xa5, 0xe5, 0xf1, 0x71, 0xd8, 0x31, 0x15],
      [0x04, 0xc7, 0x23, 0xc3, 0x18, 0x96, 0x05, 0x9a, 0x07, 0x12, 0x80, 0xe2, 0xeb, 0x27, 0xb2, 0x75],
      [0x09, 0x83, 0x2c, 0x1a, 0x1b, 0x6e, 0x5a, 0xa0, 0x52, 0x3b, 0xd6, 0xb3, 0x29, 0xe3, 0x2f, 0x84],
      [0x53, 0xd1, 0x00, 0xed, 0x20, 0xfc, 0xb1, 0x5b, 0x6a, 0xcb, 0xbe, 0x39, 0x4a, 0x4c, 0x58, 0xcf],
      [0xd0, 0xef, 0xaa, 0xfb, 0x43, 0x4d, 0x33, 0x85, 0x45, 0xf9, 0x02, 0x7f, 0x50, 0x3c, 0x9f, 0xa8],
      [0x51, 0xa3, 0x40, 0x8f, 0x92, 0x9d, 0x38, 0xf5, 0xbc, 0xb6, 0xda, 0x21, 0x10, 0xff, 0xf3, 0xd2],
      [0xcd, 0x0c, 0x13, 0xec, 0x5f, 0x97, 0x44, 0x17, 0xc4, 0xa7, 0x7e, 0x3d, 0x64, 0x5d, 0x19, 0x73],
      [0x60, 0x81, 0x4f, 0xdc, 0x22, 0x2a, 0x90, 0x88, 0x46, 0xee, 0xb8, 0x14, 0xde, 0x5e, 0x0b, 0xdb],
      [0xe0, 0x32, 0x3a, 0x0a, 0x49, 0x06, 0x24, 0x5c, 0xc2, 0xd3, 0xac, 0x62, 0x91, 0x95, 0xe4, 0x79],
      [0xe7, 0xc8, 0x37, 0x6d, 0x8d, 0xd5, 0x4e, 0xa9, 0x6c, 0x56, 0xf4, 0xea, 0x65, 0x7a, 0xae, 0x08],
      [0xba, 0x78, 0x25, 0x2e, 0x1c, 0xa6, 0xb4, 0xc6, 0xe8, 0xdd, 0x74, 0x1f, 0x4b, 0xbd, 0x8b, 0x8a],
      [0x70, 0x3e, 0xb5, 0x66, 0x48, 0x03, 0xf6, 0x0e, 0x61, 0x35, 0x57, 0xb9, 0x86, 0xc1, 0x1d, 0x9e],
      [0xe1, 0xf8, 0x98, 0x11, 0x69, 0xd9, 0x8e, 0x94, 0x9b, 0x1e, 0x87, 0xe9, 0xce, 0x55, 0x28, 0xdf],
      [0x8c, 0xa1, 0x89, 0x0d, 0xbf, 0xe6, 0x42, 0x68, 0x41, 0x99, 0x2d, 0x0f, 0xb0, 0x54, 0xbb, 0x16]]"

definition sub_byte :: "byte \<Rightarrow> byte" where
  "sub_byte b = sbox ! unat (drop_bit 4 b) ! unat (b AND 0x0f)"

definition xtime :: "byte \<Rightarrow> byte" where
  "xtime b = push_bit 1 (b AND 0x7f) XOR (if b AND 0x80 = 0 then 0 else 0x1b)"

definition sub_bytes :: "bytes \<Rightarrow> bytes" where
  "sub_bytes s = map sub_byte s"

definition shift_rows :: "bytes \<Rightarrow> bytes" where
  "shift_rows s = map (\<lambda>i. s ! i) [0, 5, 10, 15, 4, 9, 14, 3, 8, 13, 2, 7, 12, 1, 6, 11]"

definition mix_column :: "byte \<Rightarrow> byte \<Rightarrow> byte \<Rightarrow> byte \<Rightarrow> bytes" where
  "mix_column a b c d =
     [xtime a XOR (xtime b XOR b) XOR c XOR d,
      a XOR xtime b XOR (xtime c XOR c) XOR d,
      a XOR b XOR xtime c XOR (xtime d XOR d),
      (xtime a XOR a) XOR b XOR c XOR xtime d]"

definition mix_columns :: "bytes \<Rightarrow> bytes" where
  "mix_columns s =
     mix_column (s ! 0) (s ! 1) (s ! 2) (s ! 3) @ mix_column (s ! 4) (s ! 5) (s ! 6) (s ! 7) @
     mix_column (s ! 8) (s ! 9) (s ! 10) (s ! 11) @
     mix_column (s ! 12) (s ! 13) (s ! 14) (s ! 15)"

definition xor_words :: "bytes \<Rightarrow> bytes \<Rightarrow> bytes \<Rightarrow> bytes \<Rightarrow> bytes \<Rightarrow> bytes" where
  "xor_words g a b c d =
     xor_bytes g a @ xor_bytes (xor_bytes g a) b @
     xor_bytes (xor_bytes (xor_bytes g a) b) c @
     xor_bytes (xor_bytes (xor_bytes (xor_bytes g a) b) c) d"

definition next_round_key :: "byte \<Rightarrow> bytes \<Rightarrow> bytes" where
  "next_round_key rc k =
     xor_words [sub_byte (k ! 13) XOR rc, sub_byte (k ! 14), sub_byte (k ! 15), sub_byte (k ! 12)]
       (take 4 k) (take 4 (drop 4 k)) (take 4 (drop 8 k)) (take 4 (drop 12 k))"

fun key_expansion :: "byte list \<Rightarrow> bytes \<Rightarrow> bytes list" where
  "key_expansion [] k = [k]"
| "key_expansion (rc # rcs) k = k # key_expansion rcs (next_round_key rc k)"

fun cipher_rounds :: "bytes list \<Rightarrow> bytes \<Rightarrow> bytes" where
  "cipher_rounds [] s = s"
| "cipher_rounds [k] s = xor_bytes (shift_rows (sub_bytes s)) k"
| "cipher_rounds (k # ks) s =
     cipher_rounds ks (xor_bytes (mix_columns (shift_rows (sub_bytes s))) k)"

definition aes128 :: block_cipher where
  "aes128 key blk =
     cipher_rounds
       (tl (key_expansion [0x01, 0x02, 0x04, 0x08, 0x10, 0x20, 0x40, 0x80, 0x1b, 0x36] key))
       (xor_bytes blk key)"

text \<open>The key and the 16-byte message of the known-answer vectors.\<close>

definition rfc_key :: bytes where
  "rfc_key = [0x2b, 0x7e, 0x15, 0x16, 0x28, 0xae, 0xd2, 0xa6,
              0xab, 0xf7, 0x15, 0x88, 0x09, 0xcf, 0x4f, 0x3c]"

definition rfc_message :: bytes where
  "rfc_message = [0x6b, 0xc1, 0xbe, 0xe2, 0x2e, 0x40, 0x9f, 0x96,
                  0xe9, 0x3d, 0x7e, 0x11, 0x73, 0x93, 0x17, 0x2a]"

text \<open>
  The subkeys of that key, and the store after \<open>CMAC\<close> when it held only a message
  before: the message at reference 0 and the two subkeys at references 1 and 2.
\<close>

definition rfc_K1 :: bytes where
  "rfc_K1 = [0xfb, 0xee, 0xd6, 0x18, 0x35, 0x71, 0x33, 0x66,
             0x7c, 0x85, 0xe0, 0x8f, 0x72, 0x36, 0xa8, 0xde]"

definition rfc_K2 :: bytes where
  "rfc_K2 = [0xf7, 0xdd, 0xac, 0x30, 0x6a, 0xe2, 0x66, 0xcc,
             0xf9, 0x0b, 0xc1, 0x1e, 0xe4, 0x6d, 0x51, 0x3b]"

definition example_heap :: "bytes \<Rightarrow> heap" where
  "example_heap message =
     \<lparr>arr = (\<lambda>_. [])(0 := message, 1 := rfc_K1, 2 := rfc_K2), nxt = 3\<rparr>"

text \<open>
  A platform with Node's crypto library only, and the closure \<open>CMAC\<close> returns there for
  that key when the store holds one array.
\<close>

definition example_env :: env where
  "example_env = \<lparr>webCryptoAll = False, nodeCrypto = True\<rparr>"

definition example_mac :: mac where
  "example_mac = \<lparr>m_cbc = NodeCBC rfc_key, m_padding = 1, m_padding2 = 2\<rparr>"

subsection \<open>The doubling of the spec\<close>

text \<open>
  Section 4.1 of the spec, in its words: the block is a 128-bit big-endian integer; shift
  it left by one position, drop the most significant bit, and XOR \<open>0x87\<close> into the last
  byte when the dropped bit was 1.
\<close>

definition be_val :: "bytes \<Rightarrow> nat" where
  "be_val bs = foldl (\<lambda>acc b. 256 * acc + unat b) 0 bs"

fun be_bytes :: "nat \<Rightarrow> nat \<Rightarrow> bytes" where
  "be_bytes 0 v = []"
| "be_bytes (Suc n) v = be_bytes n (v div 256) @ [of_nat (v mod 256)]"

definition double_spec :: "bytes \<Rightarrow> bytes" where
  "double_spec blk =
     be_bytes 16 (((2 * be_val blk) mod 2 ^ 128) XOR (if 2 ^ 127 \<le> be_val blk then 0x87 else 0))"

text \<open>
  The state \<open>Prepared\<close> of section 4.5: the closure holds an accepted key, and the two
  arrays it closes over are allocated, distinct, and hold K1 = double(L) and
  K2 = double(K1), for L the encryption of the zero block.
\<close>

definition prepared :: "block_cipher \<Rightarrow> bytes \<Rightarrow> heap \<Rightarrow> mac \<Rightarrow> bool" where
  "prepared E key h m \<longleftrightarrow>
     valid_key_length key \<and> key_of (m_cbc m) = key \<and>
     m_padding m < nxt h \<and> m_padding2 m < nxt h \<and> m_padding m \<noteq> m_padding2 m \<and>
     arr h (m_padding m) = double_spec (E key zeroBlock) \<and>
     arr h (m_padding2 m) = double_spec (double_spec (E key zeroBlock))"

text \<open>
  The left shift by one bit of a byte sequence read as one big-endian number, byte by
  byte: each byte takes the top bit of its successor.
\<close>

fun shift_left1 :: "bytes \<Rightarrow> bytes" where
  "shift_left1 [] = []"
| "shift_left1 [x] = [push_bit 1 x]"
| "shift_left1 (x # y # ys) =
     (push_bit 1 x XOR (if y AND 0x80 \<noteq> 0 then 1 else 0)) # shift_left1 (y # ys)"

section \<open>Properties\<close>

subsection \<open>Reads and writes\<close>

lemma wr_length [simp]: "length (arr (wr h r i v) r') = length (arr h r')"
  by (simp add: wr_def)

lemma wr_nxt [simp]: "nxt (wr h r i v) = nxt h"
  by (simp add: wr_def)

lemma wr_other [simp]: "r' \<noteq> r \<Longrightarrow> arr (wr h r i v) r' = arr h r'"
  by (simp add: wr_def)

lemma wr_empty: "arr h r = [] \<Longrightarrow> wr h r i v = h"
  by (auto simp add: wr_def)

lemma fold_wr_empty:
  "arr h r = [] \<Longrightarrow> fold (\<lambda>i h. wr h r (f i) (g i h)) xs h = h"
  by (induction xs) (simp_all add: wr_empty)

lemma fold_wr_length [simp]:
  "length (arr (fold (\<lambda>i h. wr h r (f i) (g i h)) xs h) r') = length (arr h r')"
  by (induction xs arbitrary: h) simp_all

lemma fold_wr_nxt [simp]:
  "nxt (fold (\<lambda>i h. wr h r (f i) (g i h)) xs h) = nxt h"
  by (induction xs arbitrary: h) simp_all

lemma fold_wr_other [simp]:
  "r' \<noteq> r \<Longrightarrow> arr (fold (\<lambda>i h. wr h r (f i) (g i h)) xs h) r' = arr h r'"
  by (induction xs arbitrary: h) simp_all

lemma rd_nat: "rd h r (int j) = (if j < length (arr h r) then arr h r ! j else 0)"
  by (simp add: rd_def)

lemma wr_nat:
  "wr h r (int j) v =
     (if j < length (arr h r) then h\<lparr>arr := (arr h)(r := (arr h r)[j := v])\<rparr> else h)"
  by (simp add: wr_def)

lemma wr_same_nth:
  "j < length (arr h r) \<Longrightarrow>
   arr (wr h r (int i) v) r ! j = (if j = i then v else arr h r ! j)"
  by (simp add: wr_nat nth_list_update)

lemma set_array_nxt [simp]: "nxt (set_array h dst src) = nxt h"
  by (simp add: set_array_def)

subsection \<open>\<open>rightXorMut\<close>\<close>

lemma rightXorMut_empty: "arr h data = [] \<Longrightarrow> rightXorMut h data padding = (h, data)"
  by (simp add: rightXorMut_def fold_wr_empty)

lemma rightXorMut_length [simp]:
  "length (arr (fst (rightXorMut h data padding)) r) = length (arr h r)"
  by (simp add: rightXorMut_def Let_def)

lemma rightXorMut_snd [simp]: "snd (rightXorMut h data padding) = data"
  by (simp add: rightXorMut_def Let_def)

lemma rightXorMut_other:
  "r \<noteq> data \<Longrightarrow> arr (fst (rightXorMut h data p)) r = arr h r"
  by (simp add: rightXorMut_def Let_def)

lemma rightXorMut_nxt [simp]: "nxt (fst (rightXorMut h data p)) = nxt h"
  by (simp add: rightXorMut_def Let_def)

lemma rightXorMut_loop:
  assumes "data \<noteq> p" and "16 \<le> length (arr h data)" and "k \<le> 16"
  defines "n \<equiv> length (arr h data)"
  defines "q \<equiv> \<lambda>i. rd h p (int i)"
  defines "hk \<equiv> fold (\<lambda>i h. wr h data (int i + (int n - 16))
                         (rd h data (int i + (int n - 16)) XOR rd h p (int i))) [0..<k] h"
  shows "\<forall>j<n. arr hk data ! j =
           (if n - 16 \<le> j \<and> j < n - 16 + k then arr h data ! j XOR q (j - (n - 16))
            else arr h data ! j)"
  using assms(3) unfolding hk_def
proof (induction k)
  case 0
  then show ?case by auto
next
  case (Suc k)
  let ?f = "\<lambda>i h. wr h data (int i + (int n - 16))
                         (rd h data (int i + (int n - 16)) XOR rd h p (int i))"
  let ?hk = "fold ?f [0..<k] h"
  have ih: "\<forall>j<n. arr ?hk data ! j =
           (if n - 16 \<le> j \<and> j < n - 16 + k then arr h data ! j XOR q (j - (n - 16))
            else arr h data ! j)"
    using Suc by simp
  have len: "length (arr ?hk data) = n"
    by (simp add: n_def)
  have n16: "16 \<le> n" using assms(2) by (simp add: n_def)
  have idx: "int k + (int n - 16) = int (k + n - 16)"
    using n16 by simp
  have pk: "rd ?hk p (int k) = q k"
    using assms(1) by (simp add: rd_def q_def)
  have kn: "k + n - 16 < n" using Suc.prems n16 by simp
  have r1: "rd ?hk data (int (k + n - 16)) = arr ?hk data ! (k + n - 16)"
    using kn len by (simp add: rd_nat)
  have fk: "?f k ?hk = wr ?hk data (int (k + n - 16)) (arr ?hk data ! (k + n - 16) XOR q k)"
    by (simp only: idx pk r1)
  have w1: "arr (wr ?hk data (int (k + n - 16)) v) data = (arr ?hk data)[k + n - 16 := v]" for v
    using kn len by (simp add: wr_nat)
  have "fold ?f [0..<Suc k] h = ?f k ?hk"
    by simp
  then have eq: "arr (fold ?f [0..<Suc k] h) data =
      (arr ?hk data)[k + n - 16 := arr ?hk data ! (k + n - 16) XOR q k]"
    by (simp only: fk w1)
  define xs where "xs = arr ?hk data"
  have xs_len: "length xs = n" using len by (simp add: xs_def)
  have xs_nth: "\<And>j. j < n \<Longrightarrow> xs ! j =
           (if n - 16 \<le> j \<and> j < n - 16 + k then arr h data ! j XOR q (j - (n - 16))
            else arr h data ! j)"
    using ih by (simp add: xs_def)
  have eq': "arr (fold ?f [0..<Suc k] h) data = xs[k + n - 16 := xs ! (k + n - 16) XOR q k]"
    using eq by (simp only: xs_def)
  have nlt: "\<not> (k + n - 16 < n - 16 + k)"
    using n16 by arith
  have old: "xs ! (k + n - 16) = arr h data ! (k + n - 16)"
    using xs_nth [OF kn] by (simp only: nlt simp_thms if_False)
  have goal: "(xs[k + n - 16 := xs ! (k + n - 16) XOR q k]) ! j =
       (if n - 16 \<le> j \<and> j < n - 16 + Suc k then arr h data ! j XOR q (j - (n - 16))
        else arr h data ! j)" if j: "j < n" for j
  proof (cases "j = k + n - 16")
    case True
    have "k + n - 16 - (n - 16) = k" using n16 by simp
    moreover have "n - 16 \<le> k + n - 16 \<and> k + n - 16 < n - 16 + Suc k" using n16 by arith
    ultimately show ?thesis using True j xs_len old by (simp del: add_Suc_right)
  next
    case False
    then have "j < n - 16 + Suc k \<longleftrightarrow> j < n - 16 + k" using n16 by arith
    then show ?thesis using False j xs_len xs_nth [OF j] by (simp del: add_Suc_right)
  qed
  show ?case
    unfolding eq' using goal by blast
qed

lemma rightXorMut_aligned:
  assumes "data \<noteq> p" and "16 \<le> length (arr h data)" and "16 \<le> length (arr h p)"
  shows "arr (fst (rightXorMut h data p)) data =
           take (length (arr h data) - 16) (arr h data) @
           xor_bytes (drop (length (arr h data) - 16) (arr h data)) (take 16 (arr h p))"
proof (rule nth_equalityI)
  show "length (arr (fst (rightXorMut h data p)) data) =
    length (take (length (arr h data) - 16) (arr h data) @
           xor_bytes (drop (length (arr h data) - 16) (arr h data)) (take 16 (arr h p)))"
    using assms by (simp add: xor_bytes_def)
next
  fix j assume "j < length (arr (fst (rightXorMut h data p)) data)"
  then have j: "j < length (arr h data)" by simp
  let ?n = "length (arr h data)"
  have *: "arr (fst (rightXorMut h data p)) data ! j =
     (if ?n - 16 \<le> j \<and> j < ?n - 16 + 16
      then arr h data ! j XOR rd h p (int (j - (?n - 16)))
      else arr h data ! j)"
    using rightXorMut_loop [OF assms(1,2), of 16] j
    by (simp add: rightXorMut_def blockLength_def Let_def)
  show "arr (fst (rightXorMut h data p)) data ! j =
     (take (?n - 16) (arr h data) @
      xor_bytes (drop (?n - 16) (arr h data)) (take 16 (arr h p))) ! j"
  proof (cases "j < ?n - 16")
    case True
    then show ?thesis using * by (simp add: nth_append)
  next
    case False
    then have k: "j - (?n - 16) < 16" using j assms(2) by simp
    then have "rd h p (int (j - (?n - 16))) = arr h p ! (j - (?n - 16))"
      using assms(3) unfolding rd_nat by simp
    then show ?thesis using * False j k assms
      by (simp add: nth_append xor_bytes_def)
  qed
qed

lemma rightXorMut_heap:
  assumes "data \<noteq> p" and "16 \<le> length (arr h data)" and "16 \<le> length (arr h p)"
  shows "rightXorMut h data p =
           (h\<lparr>arr := (arr h)(data :=
                take (length (arr h data) - 16) (arr h data) @
                xor_bytes (drop (length (arr h data) - 16) (arr h data)) (take 16 (arr h p)))\<rparr>,
            data)"
proof -
  let ?X = "take (length (arr h data) - 16) (arr h data) @
                xor_bytes (drop (length (arr h data) - 16) (arr h data)) (take 16 (arr h p))"
  have "fst (rightXorMut h data p) = h\<lparr>arr := (arr h)(data := ?X)\<rparr>"
  proof (rule heap.equality)
    show "arr (fst (rightXorMut h data p)) = arr (h\<lparr>arr := (arr h)(data := ?X)\<rparr>)"
    proof
      fix x show "arr (fst (rightXorMut h data p)) x = arr (h\<lparr>arr := (arr h)(data := ?X)\<rparr>) x"
        using rightXorMut_aligned [OF assms] by (cases "x = data") (simp_all add: rightXorMut_other)
    qed
    show "nxt (fst (rightXorMut h data p)) = nxt (h\<lparr>arr := (arr h)(data := ?X)\<rparr>)"
      by simp
    show "heap.more (fst (rightXorMut h data p)) = heap.more (h\<lparr>arr := (arr h)(data := ?X)\<rparr>)"
      by simp
  qed
  then show ?thesis by (simp add: prod_eq_iff)
qed

subsection \<open>Bytes as numbers\<close>

lemma msb_byte: "(y :: byte) AND 0x80 \<noteq> 0 \<longleftrightarrow> 128 \<le> unat y"
proof -
  have "(0x80 :: byte) = 2 ^ 7" by simp
  then have "y AND 0x80 \<noteq> 0 \<longleftrightarrow> bit y 7"
    by (simp only: and_exp_eq_0_iff_not_bit) simp
  also have "\<dots> \<longleftrightarrow> bit (unat y) 7"
    by (simp add: bit_unsigned_iff)
  also have "\<dots> \<longleftrightarrow> odd (unat y div 128)"
    by (simp add: bit_iff_odd_drop_bit drop_bit_eq_div)
  also have "\<dots> \<longleftrightarrow> 128 \<le> unat y"
  proof -
    have "unat y < 256" using unsigned_less [of y] by simp
    then have "unat y div 128 = (if 128 \<le> unat y then 1 else 0)" by auto
    then show ?thesis by simp
  qed
  finally show ?thesis .
qed

lemma unat_shl_byte: "unat (push_bit 1 (x :: byte)) = (2 * unat x) mod 256"
  by (simp add: push_bit_eq_mult unat_word_ariths mult.commute)

lemma unat_shl_carry:
  "unat (push_bit 1 (x :: byte) XOR (if c then 1 else 0)) = (2 * unat x) mod 256 + (if c then 1 else 0)"
proof (cases c)
  case True
  have "(2 * unat x) mod 256 = 2 * (unat x mod 128)"
    using mult_mod_right [of 2 "unat x" 128] by simp
  then have "even ((2 * unat x) mod 256)"
    by simp
  then have "(2 * unat x) mod 256 XOR 1 = (2 * unat x) mod 256 + 1"
    by (simp add: xor_Suc_0_eq)
  moreover have "unat (push_bit 1 x XOR 1) = unat (push_bit 1 x) XOR 1"
    by (simp only: unsigned_xor_eq unsigned_1)
  ultimately show ?thesis using True
    by (simp only: unat_shl_byte if_True)
next
  case False
  have "push_bit 1 x XOR 0 = push_bit 1 x" by simp
  then show ?thesis using False by (simp only: unat_shl_byte if_False add_0_right)
qed

lemma nat_xor_low_byte:
  "(256 * a + unat (y :: byte)) XOR unat (c :: byte) = 256 * a + unat (y XOR c)"
proof -
  let ?L = "(256 * a + unat y) XOR unat c"
  let ?R = "256 * a + unat (y XOR c)"
  have y: "unat y < 256" and c: "unat c < 256" and yc: "unat (y XOR c) < 256"
    using unsigned_less [of y] unsigned_less [of c] unsigned_less [of "y XOR c"] by simp_all
  have "take_bit 8 ?L = take_bit 8 (256 * a + unat y) XOR take_bit 8 (unat c)"
    by (simp only: take_bit_xor)
  also have "\<dots> = unat y XOR unat c"
    using y c by (simp add: take_bit_eq_mod)
  also have "\<dots> = take_bit 8 ?R"
    using yc by (simp add: take_bit_eq_mod unsigned_xor_eq)
  finally have t: "take_bit 8 ?L = take_bit 8 ?R" .
  have "drop_bit 8 ?L = drop_bit 8 (256 * a + unat y) XOR drop_bit 8 (unat c)"
    by (simp only: drop_bit_xor)
  also have "\<dots> = a"
    using y c by (simp add: drop_bit_eq_div)
  also have "\<dots> = drop_bit 8 ?R"
    using yc by (simp add: drop_bit_eq_div)
  finally have d: "drop_bit 8 ?L = drop_bit 8 ?R" .
  have "?L = push_bit 8 (drop_bit 8 ?L) + take_bit 8 ?L"
    by (simp only: bits_ident)
  also have "\<dots> = push_bit 8 (drop_bit 8 ?R) + take_bit 8 ?R"
    by (simp only: t d)
  also have "\<dots> = ?R"
    by (simp only: bits_ident)
  finally show ?thesis .
qed

lemma mod_high_low:
  fixes a r B :: nat
  assumes "r < B"
  shows "(a * B + r) mod (256 * B) = (a mod 256) * B + r"
proof -
  define q m where "q = a div 256" and "m = a mod 256"
  have a: "a = 256 * q + m" by (simp add: q_def m_def)
  have m: "m + 1 \<le> 256" by (simp add: m_def Suc_leI)
  have "m * B + r < m * B + B" using assms by simp
  also have "\<dots> = (m + 1) * B" by simp
  also have "\<dots> \<le> 256 * B" using m by (intro mult_le_mono1)
  finally have small: "m * B + r < 256 * B" .
  have "a * B + r = q * (256 * B) + (m * B + r)"
    by (simp add: a algebra_simps)
  then have "(a * B + r) mod (256 * B) = (m * B + r) mod (256 * B)"
    by (simp only: mod_mult_self3)
  also have "\<dots> = m * B + r"
    using small by (rule mod_less)
  finally show ?thesis by (simp only: m_def)
qed

subsection \<open>Big-endian values\<close>

lemma be_val_foldl:
  "foldl (\<lambda>acc b. 256 * acc + unat (b :: byte)) a bs = a * 256 ^ length bs + be_val bs"
proof (induction bs arbitrary: a)
  case Nil
  then show ?case by (simp add: be_val_def)
next
  case (Cons b bs)
  have "foldl (\<lambda>acc b. 256 * acc + unat b) a (b # bs) =
        (256 * a + unat b) * 256 ^ length bs + be_val bs"
    using Cons [of "256 * a + unat b"] by simp
  moreover have "be_val (b # bs) = unat b * 256 ^ length bs + be_val bs"
    using Cons [of "unat b"] by (simp add: be_val_def)
  ultimately show ?case by (simp add: algebra_simps)
qed

lemma be_val_Nil [simp]: "be_val [] = 0"
  by (simp add: be_val_def)

lemma be_val_Cons: "be_val (b # bs) = unat b * 256 ^ length bs + be_val bs"
  using be_val_foldl [of "unat b" bs] by (simp add: be_val_def)

lemma be_val_snoc: "be_val (bs @ [b]) = 256 * be_val bs + unat b"
  by (simp add: be_val_def)

lemma be_val_less: "be_val bs < 256 ^ length bs"
proof (induction bs rule: rev_induct)
  case Nil
  then show ?case by simp
next
  case (snoc b bs)
  have "unat b < 256" using unsigned_less [of b] by simp
  then have "256 * be_val bs + unat b < 256 * (be_val bs + 1)" by simp
  also have "\<dots> \<le> 256 * 256 ^ length bs"
    using snoc by (intro mult_le_mono2) simp
  finally show ?case by (simp add: be_val_snoc)
qed

lemma be_bytes_length [simp]: "length (be_bytes n v) = n"
  by (induction n arbitrary: v) simp_all

lemma be_bytes_be_val: "be_bytes (length bs) (be_val bs) = bs"
proof (induction bs rule: rev_induct)
  case Nil
  then show ?case by simp
next
  case (snoc b bs)
  have b: "unat b < 256" using unsigned_less [of b] by simp
  then have "(256 * be_val bs + unat b) div 256 = be_val bs"
    and "(256 * be_val bs + unat b) mod 256 = unat b"
    by simp_all
  then show ?case using snoc by (simp add: be_val_snoc)
qed

lemma be_val_msb:
  "be_val (b # bs) \<ge> 128 * 256 ^ length bs \<longleftrightarrow> b AND 0x80 \<noteq> 0"
proof -
  have lt: "be_val bs < 256 ^ length bs" by (rule be_val_less)
  show ?thesis
  proof (cases "128 \<le> unat b")
    case True
    then have "128 * 256 ^ length bs \<le> unat b * 256 ^ length bs"
      by (intro mult_le_mono1)
    then show ?thesis using True by (simp add: be_val_Cons msb_byte trans_le_add1)
  next
    case False
    then have "unat b + 1 \<le> 128" by simp
    then have "(unat b + 1) * 256 ^ length bs \<le> 128 * 256 ^ length bs"
      by (intro mult_le_mono1)
    moreover have "unat b * 256 ^ length bs + be_val bs < (unat b + 1) * 256 ^ length bs"
      using lt by simp
    ultimately have "unat b * 256 ^ length bs + be_val bs < 128 * 256 ^ length bs"
      by (rule less_le_trans [rotated])
    then show ?thesis using False by (simp add: be_val_Cons msb_byte)
  qed
qed

lemma be_val_top_bit:
  assumes "length d = 16"
  shows "2 ^ 127 \<le> be_val d \<longleftrightarrow> d ! 0 AND 0x80 \<noteq> 0"
proof -
  obtain b bs where d: "d = b # bs" and bs: "length bs = 15"
    using assms by (cases d) auto
  have "(2 :: nat) ^ 127 = 128 * 256 ^ length bs"
    by (simp add: bs)
  then show ?thesis
    using be_val_msb [of bs b] by (simp only: d nth_Cons_0)
qed

lemma be_val_xor_last:
  assumes "xs \<noteq> []"
  shows "be_val (xs[length xs - 1 := last xs XOR c]) = be_val xs XOR unat c"
proof -
  obtain ys y where xs: "xs = ys @ [y]"
    using assms by (cases xs rule: rev_exhaust) auto
  have "xs[length xs - 1 := last xs XOR c] = ys @ [y XOR c]"
    by (simp add: xs)
  then show ?thesis
    by (simp add: xs be_val_snoc nat_xor_low_byte)
qed

lemma shift_left1_length [simp]: "length (shift_left1 xs) = length xs"
  by (induction xs rule: shift_left1.induct) simp_all

lemma shift_left1_nth:
  "j < length xs \<Longrightarrow>
   shift_left1 xs ! j =
     push_bit 1 (xs ! j) XOR (if j + 1 < length xs \<and> xs ! (j + 1) AND 0x80 \<noteq> 0 then 1 else 0)"
proof (induction xs arbitrary: j rule: shift_left1.induct)
  case 1
  then show ?case by simp
next
  case (2 x)
  then show ?case by simp
next
  case (3 x y ys)
  show ?case
  proof (cases j)
    case 0
    then show ?thesis by simp
  next
    case (Suc i)
    then have "i < length (y # ys)" using 3(2) by simp
    from 3(1) [OF this] show ?thesis using Suc by simp
  qed
qed

lemma be_val_shift_left1:
  "be_val (shift_left1 xs) = (2 * be_val xs) mod 256 ^ length xs"
proof (induction xs rule: shift_left1.induct)
  case 1
  then show ?case by simp
next
  case (2 x)
  have "be_val [push_bit 1 x] = unat (push_bit 1 x)"
    by (simp only: be_val_Cons be_val_Nil) simp
  then show ?case by (simp only: shift_left1.simps unat_shl_byte) (simp add: be_val_Cons)
next
  case (3 x y ys)
  let ?B = "256 ^ length (y # ys) :: nat"
  let ?v = "be_val (y # ys)"
  let ?c = "y AND 0x80 \<noteq> 0"
  have v: "?v < ?B" by (rule be_val_less)
  have half: "?B = 2 * (128 * 256 ^ length ys)" by simp
  have carry: "(2 * ?v) div ?B = (if ?c then 1 else 0)"
  proof (cases ?c)
    case True
    then have "128 * 256 ^ length ys \<le> ?v" using be_val_msb [of ys y] by blast
    then have "?B \<le> 2 * ?v" "2 * ?v < 2 * ?B" using v half by simp_all
    then have "(2 * ?v) div ?B = 1"
      by (intro div_nat_eqI) simp_all
    then show ?thesis using True by simp
  next
    case False
    then have "\<not> 128 * 256 ^ length ys \<le> ?v" using be_val_msb [of ys y] by blast
    then have "2 * ?v < ?B" using half by simp
    then show ?thesis using False by simp
  qed
  have split: "2 * ?v = (if ?c then 1 else 0) * ?B + (2 * ?v) mod ?B"
    using carry div_mult_mod_eq [of "2 * ?v" ?B] by simp
  have ih: "be_val (shift_left1 (y # ys)) = (2 * ?v) mod ?B"
    using 3 by simp
  have "be_val (shift_left1 (x # y # ys)) =
        unat (push_bit 1 x XOR (if ?c then 1 else 0)) * ?B + (2 * ?v) mod ?B"
    using ih by (simp only: shift_left1.simps be_val_Cons [of _ "shift_left1 (y # ys)"] shift_left1_length)
  also have "\<dots> = ((2 * unat x) mod 256 + (if ?c then 1 else 0)) * ?B + (2 * ?v) mod ?B"
    by (simp only: unat_shl_carry)
  finally have lhs: "be_val (shift_left1 (x # y # ys)) =
      ((2 * unat x) mod 256 + (if ?c then 1 else 0)) * ?B + (2 * ?v) mod ?B" .
  have "2 * be_val (x # y # ys) = (2 * unat x) * ?B + 2 * ?v"
    by (simp add: be_val_Cons [of x])
  also have "\<dots> = (2 * unat x + (if ?c then 1 else 0)) * ?B + (2 * ?v) mod ?B"
    using split by (simp add: algebra_simps)
  finally have rhs0: "2 * be_val (x # y # ys) =
      (2 * unat x + (if ?c then 1 else 0)) * ?B + (2 * ?v) mod ?B" .
  have r: "(2 * ?v) mod ?B < ?B" by simp
  have m: "(2 * unat x + (if ?c then 1 else 0)) mod 256 =
           (2 * unat x) mod 256 + (if ?c then 1 else 0)"
  proof -
    have e: "(2 * unat x) mod 256 = 2 * (unat x mod 128)"
      using mult_mod_right [of 2 "unat x" 128] by simp
    have "unat x mod 128 < 128" by simp
    then have "2 * (unat x mod 128) + 1 < 256" by linarith
    then have "(2 * unat x) mod 256 + (if ?c then 1 else 0) < 256"
      unfolding e by (cases ?c) simp_all
    moreover have "(2 * unat x + (if ?c then 1 else 0)) mod 256 =
      ((2 * unat x) mod 256 + (if ?c then 1 else 0)) mod 256"
      by (simp add: mod_add_left_eq)
    ultimately show ?thesis by simp
  qed
  have "(2 * be_val (x # y # ys)) mod 256 ^ length (x # y # ys) =
        ((2 * unat x + (if ?c then 1 else 0)) * ?B + (2 * ?v) mod ?B) mod (256 * ?B)"
    by (simp only: rhs0) simp
  also have "\<dots> = ((2 * unat x + (if ?c then 1 else 0)) mod 256) * ?B + (2 * ?v) mod ?B"
    using r by (rule mod_high_low)
  also have "\<dots> = ((2 * unat x) mod 256 + (if ?c then 1 else 0)) * ?B + (2 * ?v) mod ?B"
    by (simp only: m)
  finally show ?case by (simp only: lhs)
qed

subsection \<open>\<open>mul2\<close> on a 16-byte block\<close>

lemma mul2_snd [simp]: "snd (mul2 h data) = data"
  by (simp add: mul2_def Let_def)

lemma mul2_other [simp]: "r \<noteq> data \<Longrightarrow> arr (fst (mul2 h data)) r = arr h r"
  by (simp add: mul2_def Let_def)

lemma mul2_length [simp]: "length (arr (fst (mul2 h data)) r) = length (arr h r)"
  by (simp add: mul2_def Let_def)

lemma mul2_nxt [simp]: "nxt (fst (mul2 h data)) = nxt h"
  by (simp add: mul2_def Let_def)

lemma mul2_loop:
  assumes "length (arr h data) = 16" and "k \<le> 15"
  defines "c \<equiv> \<lambda>j. (if arr h data ! (j + 1) AND 0x80 \<noteq> 0 then 1 else 0 :: byte)"
  defines "hk \<equiv> fold (\<lambda>i h. wr h data (int i)
                             (push_bit 1 (rd h data (int i))
                                XOR (if rd h data (int i + 1) AND 0x80 \<noteq> 0 then 1 else 0)))
                 [0..<k] h"
  shows "\<forall>j<16. arr hk data ! j =
           (if j < k then push_bit 1 (arr h data ! j) XOR c j else arr h data ! j)"
  using assms(2) unfolding hk_def
proof (induction k)
  case 0
  then show ?case by simp
next
  case (Suc k)
  let ?f = "\<lambda>i h. wr h data (int i)
                             (push_bit 1 (rd h data (int i))
                                XOR (if rd h data (int i + 1) AND 0x80 \<noteq> 0 then 1 else 0))"
  let ?hk = "fold ?f [0..<k] h"
  define xs where "xs = arr ?hk data"
  have xs_len: "length xs = 16"
    using assms(1) by (simp add: xs_def)
  have xs_nth: "\<And>j. j < 16 \<Longrightarrow> xs ! j =
           (if j < k then push_bit 1 (arr h data ! j) XOR c j else arr h data ! j)"
    using Suc by (simp add: xs_def)
  have k14: "k < 15" using Suc.prems by simp
  have r0: "rd ?hk data (int k) = arr h data ! k"
    using k14 xs_len xs_nth [of k] by (simp add: rd_nat xs_def)
  have "int k + 1 = int (k + 1)" by simp
  then have r1: "rd ?hk data (int k + 1) = arr h data ! (k + 1)"
    using k14 xs_len xs_nth [of "k + 1"] by (simp only: rd_nat xs_def) simp
  have fk: "?f k ?hk = wr ?hk data (int k) (push_bit 1 (arr h data ! k) XOR c k)"
    by (simp only: r0 r1 c_def)
  have w1: "arr (wr ?hk data (int k) v) data = xs[k := v]" for v
    using k14 xs_len by (simp add: wr_nat xs_def)
  have "fold ?f [0..<Suc k] h = ?f k ?hk"
    by simp
  then have eq: "arr (fold ?f [0..<Suc k] h) data = xs[k := push_bit 1 (arr h data ! k) XOR c k]"
    by (simp only: fk w1)
  have goal: "(xs[k := push_bit 1 (arr h data ! k) XOR c k]) ! j =
      (if j < Suc k then push_bit 1 (arr h data ! j) XOR c j else arr h data ! j)"
    if j: "j < 16" for j
    using j xs_len xs_nth [OF j] by (cases "j = k") (auto simp add: nth_list_update)
  show ?case
    unfolding eq using goal by blast
qed

text \<open>The contents that \<open>mul2\<close> leaves in a 16-byte array.\<close>

lemma mul2_content:
  assumes "length (arr h data) = 16"
  shows "arr (fst (mul2 h data)) data =
           (shift_left1 (arr h data))
             [15 := push_bit 1 (arr h data ! 15)
                      XOR (if arr h data ! 0 AND 0x80 \<noteq> 0 then 0x87 else 0)]"
proof -
  let ?d = "arr h data"
  let ?f = "\<lambda>i h. wr h data (int i)
                             (push_bit 1 (rd h data (int i))
                                XOR (if rd h data (int i + 1) AND 0x80 \<noteq> 0 then 1 else 0))"
  define h1 where "h1 = fold ?f [0..<15] h"
  define xs where "xs = arr h1 data"
  have xs_len: "length xs = 16"
    using assms by (simp add: xs_def h1_def)
  have xs_nth: "xs ! j = (if j < 15 then push_bit 1 (?d ! j)
                    XOR (if ?d ! (j + 1) AND 0x80 \<noteq> 0 then 1 else 0) else ?d ! j)"
    if "j < 16" for j
    using mul2_loop [OF assms, of 15] that by (simp add: xs_def h1_def)
  have t: "rd h data 0 = ?d ! 0"
    using assms by (simp add: rd_def)
  have r15: "rd h1 data 15 = ?d ! 15"
    using xs_len xs_nth [of 15] by (simp add: rd_def xs_def)
  have "mul2 h data =
     (wr h1 data 15 (push_bit 1 (rd h1 data 15) XOR (if rd h data 0 AND 0x80 \<noteq> 0 then 0x87 else 0)), data)"
    by (simp add: mul2_def Let_def h1_def)
  then have m: "arr (fst (mul2 h data)) data =
      xs[15 := push_bit 1 (?d ! 15) XOR (if ?d ! 0 AND 0x80 \<noteq> 0 then 0x87 else 0)]"
    using xs_len by (simp add: t r15 wr_def xs_def)
  have "xs[15 := v] = (shift_left1 ?d)[15 := v]" for v
  proof (rule nth_equalityI)
    show "length (xs[15 := v]) = length ((shift_left1 ?d)[15 := v])"
      using xs_len assms by simp
  next
    fix j assume "j < length (xs[15 := v])"
    then have j: "j < 16" using xs_len by simp
    show "xs[15 := v] ! j = (shift_left1 ?d)[15 := v] ! j"
    proof (cases "j = 15")
      case True
      then show ?thesis using xs_len assms by simp
    next
      case False
      then have "j < 15" using j by simp
      then show ?thesis
        using xs_len assms xs_nth [OF j] shift_left1_nth [of j ?d] by simp
    qed
  qed
  then show ?thesis using m by simp
qed

lemma mul2_nth:
  assumes "length (arr h data) = 16" and "j < 16"
  shows "arr (fst (mul2 h data)) data ! j =
           (if j < 15
            then push_bit 1 (arr h data ! j)
                   XOR (if arr h data ! (j + 1) AND 0x80 \<noteq> 0 then 1 else 0)
            else push_bit 1 (arr h data ! 15)
                   XOR (if arr h data ! 0 AND 0x80 \<noteq> 0 then 0x87 else 0))"
proof (cases "j < 15")
  case True
  then show ?thesis
    using assms shift_left1_nth [of j "arr h data"] by (simp add: mul2_content)
next
  case False
  then have "j = 15" using assms(2) by simp
  then show ?thesis using assms(1) by (simp add: mul2_content)
qed

lemma mul2_zero:
  assumes "arr h data = replicate 16 0"
  shows "arr (fst (mul2 h data)) data = replicate 16 0"
proof (rule nth_equalityI)
  show "length (arr (fst (mul2 h data)) data) = length (replicate 16 (0 :: byte))"
    using assms by simp
next
  fix j assume "j < length (arr (fst (mul2 h data)) data)"
  then have j: "j < 16" using assms by simp
  have l: "length (arr h data) = 16" using assms by simp
  show "arr (fst (mul2 h data)) data ! j = replicate 16 (0 :: byte) ! j"
    using j by (simp add: mul2_nth [OF l j] assms)
qed

lemma be_val_mul2:
  assumes "length (arr h data) = 16"
  shows "be_val (arr (fst (mul2 h data)) data) =
           ((2 * be_val (arr h data)) mod 2 ^ 128)
             XOR (if 2 ^ 127 \<le> be_val (arr h data) then 0x87 else 0)"
proof -
  let ?d = "arr h data"
  let ?S = "shift_left1 ?d"
  let ?c = "if ?d ! 0 AND 0x80 \<noteq> 0 then 0x87 else 0 :: byte"
  have len: "length ?S = 16" using assms by simp
  have ne: "?S \<noteq> []"
  proof
    assume "?S = []"
    then have "length ?S = 0" by (simp only: list.size)
    then show False using assms by simp
  qed
  have "last ?S = ?S ! 15"
    using len ne by (simp add: last_conv_nth)
  also have "\<dots> = push_bit 1 (?d ! 15)"
    using shift_left1_nth [of 15 ?d] assms by simp
  finally have last: "push_bit 1 (?d ! 15) = last ?S" by simp
  have "arr (fst (mul2 h data)) data = ?S[length ?S - 1 := last ?S XOR ?c]"
    using mul2_content [OF assms] len by (simp only: last) simp
  then have "be_val (arr (fst (mul2 h data)) data) = be_val ?S XOR unat ?c"
    using be_val_xor_last [OF ne] by simp
  also have "be_val ?S = (2 * be_val ?d) mod 2 ^ 128"
    using be_val_shift_left1 [of ?d] assms by simp
  also have "unat ?c = (if 2 ^ 127 \<le> be_val ?d then 0x87 else 0)"
    using be_val_top_bit [OF assms] by simp
  finally show ?thesis .
qed

lemma mul2_double_spec:
  assumes "length (arr h data) = 16"
  shows "arr (fst (mul2 h data)) data = double_spec (arr h data)"
proof -
  let ?d' = "arr (fst (mul2 h data)) data"
  have "length ?d' = 16" using assms by simp
  then have "?d' = be_bytes 16 (be_val ?d')"
    using be_bytes_be_val [of ?d'] by simp
  then show ?thesis
    by (simp only: be_val_mul2 [OF assms] double_spec_def)
qed

lemma double_spec_length [simp]: "length (double_spec b) = 16"
  by (simp add: double_spec_def)

lemma mul2_block:
  assumes "length (arr h r) = 16"
  shows "mul2 h r = (h\<lparr>arr := (arr h)(r := double_spec (arr h r))\<rparr>, r)"
proof -
  have "fst (mul2 h r) = h\<lparr>arr := (arr h)(r := double_spec (arr h r))\<rparr>"
  proof (rule heap.equality)
    show "arr (fst (mul2 h r)) = arr (h\<lparr>arr := (arr h)(r := double_spec (arr h r))\<rparr>)"
    proof
      fix x show "arr (fst (mul2 h r)) x = arr (h\<lparr>arr := (arr h)(r := double_spec (arr h r))\<rparr>) x"
        using mul2_double_spec [OF assms] by (cases "x = r") simp_all
    qed
    show "nxt (fst (mul2 h r)) = nxt (h\<lparr>arr := (arr h)(r := double_spec (arr h r))\<rparr>)"
      by simp
    show "heap.more (fst (mul2 h r)) = heap.more (h\<lparr>arr := (arr h)(r := double_spec (arr h r))\<rparr>)"
      by simp
  qed
  then show ?thesis by (simp add: prod_eq_iff)
qed

lemma double_spec_bytes:
  assumes "length d = 16"
  shows "double_spec d =
     (shift_left1 d)[15 := push_bit 1 (d ! 15) XOR (if d ! 0 AND 0x80 \<noteq> 0 then 0x87 else 0)]"
proof -
  define h where "h = \<lparr>arr = (\<lambda>_. d), nxt = 0\<rparr>"
  have l: "length (arr h 0) = 16" using assms by (simp add: h_def)
  show ?thesis
    using mul2_double_spec [OF l] mul2_content [OF l] by (simp add: h_def)
qed

lemma fold_traced_fst:
  "fst (fold (\<lambda>i (h, tr). (F i h, tr @ [G i h])) xs (h, tr)) = fold F xs h"
  by (induction xs arbitrary: h tr) simp_all

lemma mul2_traced_fst: "fst (mul2_traced h data) = mul2 h data"
proof -
  let ?F = "\<lambda>i h. wr h data (int i)
                           (push_bit 1 (rd h data (int i))
                              XOR (if rd h data (int i + 1) AND 0x80 \<noteq> 0 then 1 else 0))"
  let ?G = "\<lambda>i h. rd h data (int i + 1) AND 0x80 \<noteq> 0"
  obtain h1 tr where f: "fold (\<lambda>i (h, tr). (?F i h, tr @ [?G i h])) [0..<15] (h, []) = (h1, tr)"
    by (cases "fold (\<lambda>i (h, tr). (?F i h, tr @ [?G i h])) [0..<15] (h, [])")
  have "h1 = fold ?F [0..<15] h"
    using fold_traced_fst [of ?F ?G "[0..<15]" h "[]"] by (simp only: f fst_conv)
  then show ?thesis
    unfolding mul2_traced_def mul2_def Let_def f by simp
qed

subsection \<open>\<open>pad\<close>\<close>

lemma pad_aligned_eq:
  "length (arr h data) mod 16 = 0 \<Longrightarrow> pad h data p p2 = rightXorMut h data p"
  by (simp add: pad_def blockLength_def)

text \<open>The store just before \<open>rightXorMut\<close> in the padding branch.\<close>

lemma pad_unaligned_eq:
  assumes "length (arr h data) mod 16 \<noteq> 0" and "data < nxt h"
  defines "n \<equiv> length (arr h data)"
  defines "h3 \<equiv> h\<lparr>arr := (arr h)(nxt h := arr h data @ 0x80 # replicate (15 - n mod 16) 0),
                   nxt := Suc (nxt h)\<rparr>"
  shows "pad h data p p2 = rightXorMut h3 (nxt h) p2"
proof -
  let ?N = "n + (16 - n mod 16)"
  define h1 where "h1 = h\<lparr>arr := (arr h)(nxt h := replicate ?N 0), nxt := Suc (nxt h)\<rparr>"
  have d: "data \<noteq> nxt h" using assms(2) by simp
  have a1: "arr h1 data = arr h data" "arr h1 (nxt h) = replicate ?N 0"
    using d by (simp_all add: h1_def)
  have "set_array h1 (nxt h) data =
          h1\<lparr>arr := (arr h1)(nxt h := arr h data @ replicate (?N - n) 0)\<rparr>"
    by (simp add: set_array_def a1 n_def)
  moreover have "?N - n = Suc (15 - n mod 16)"
  proof -
    have "n mod 16 < 16" by simp
    then show ?thesis by linarith
  qed
  ultimately have h2: "set_array h1 (nxt h) data =
          h1\<lparr>arr := (arr h1)(nxt h := arr h data @ 0 # replicate (15 - n mod 16) 0)\<rparr>"
    by simp
  have "wr (set_array h1 (nxt h) data) (nxt h) (int n) 0x80 = h3"
    unfolding h2 by (simp add: wr_nat n_def h1_def h3_def)
  then show ?thesis
    using assms(1) by (simp add: pad_def blockLength_def new_array_def Let_def n_def h1_def)
qed

lemma padded_length:
  "length (m @ 0x80 # replicate (15 - length m mod 16) (0 :: byte)) =
     length m + (16 - length m mod 16)"
proof -
  have "length m mod 16 < 16" by simp
  then show ?thesis by simp
qed

lemma padded_length_aligned:
  "length (m @ 0x80 # replicate (15 - length m mod 16) (0 :: byte)) mod 16 = 0"
proof -
  let ?n = "length m"
  have "?n mod 16 < 16" by simp
  then have "?n + (16 - ?n mod 16) = 16 * (?n div 16) + 16"
    using div_mult_mod_eq [of ?n 16] by linarith
  then show ?thesis by (simp only: padded_length) simp
qed

lemma pad_other:
  assumes "r < nxt h" and "r \<noteq> data" and "data < nxt h"
  shows "arr (fst (pad h data p p2)) r = arr h r"
proof (cases "length (arr h data) mod 16 = 0")
  case True
  then show ?thesis using assms by (simp add: pad_aligned_eq rightXorMut_other)
next
  case False
  then show ?thesis using assms
    by (simp add: pad_unaligned_eq [OF False assms(3)] rightXorMut_other)
qed

lemma pad_message_unaligned:
  assumes "length (arr h data) mod 16 \<noteq> 0" and "data < nxt h"
  shows "arr (fst (pad h data p p2)) data = arr h data"
  using assms by (simp add: pad_unaligned_eq rightXorMut_other)

lemma pad_nxt: "nxt h \<le> nxt (fst (pad h data p p2))"
  by (simp add: pad_def Let_def new_array_def split: prod.splits)

lemma pad_result_length:
  "length (arr (fst (pad h data p p2)) (snd (pad h data p p2))) =
     (if length (arr h data) mod 16 = 0 then length (arr h data)
      else length (arr h data) + (16 - length (arr h data) mod 16))"
  by (simp add: pad_def blockLength_def Let_def new_array_def set_array_def split: prod.splits)

lemma pad_result_aligned:
  "length (arr (fst (pad h data p p2)) (snd (pad h data p p2))) mod 16 = 0"
proof -
  let ?n = "length (arr h data)"
  have "?n mod 16 < 16" by simp
  then have "?n + (16 - ?n mod 16) = 16 * (?n div 16) + 16"
    using div_mult_mod_eq [of ?n 16] by linarith
  then have "(?n + (16 - ?n mod 16)) mod 16 = 0" by simp
  then show ?thesis by (simp only: pad_result_length split: if_splits) simp
qed

subsection \<open>CBC chaining and the three providers\<close>

lemma xor_bytes_length [simp]: "length (xor_bytes xs ys) = min (length xs) (length ys)"
  by (simp add: xor_bytes_def)

lemma zeroBlock_length [simp]: "length zeroBlock = 16"
  by (simp add: zeroBlock_def blockLength_def)

lemma xor_zeroBlock [simp]: "xor_bytes zeroBlock zeroBlock = zeroBlock"
  by (simp add: xor_bytes_def zeroBlock_def blockLength_def)

lemma xor_zeroBlock_left: "length x = 16 \<Longrightarrow> xor_bytes zeroBlock x = x"
  by (simp add: xor_bytes_def zeroBlock_def blockLength_def list_eq_iff_nth_eq)

lemma cbc_chain_short: "length pt < 16 \<Longrightarrow> cbc_chain f iv pt = []"
  by (simp add: cbc_chain.simps)

lemma cbc_chain_step:
  "16 \<le> length pt \<Longrightarrow>
   cbc_chain f iv pt =
     f (xor_bytes iv (take 16 pt)) @ cbc_chain f (f (xor_bytes iv (take 16 pt))) (drop 16 pt)"
  by (subst cbc_chain.simps) (simp add: Let_def)

lemma cbc_chain_one_block:
  "length pt = 16 \<Longrightarrow> cbc_chain f iv pt = f (xor_bytes iv pt)"
  by (simp add: cbc_chain_step cbc_chain_short)

lemma cbc_chain_zeroBlock: "cbc_chain f zeroBlock zeroBlock = f zeroBlock"
  by (simp add: cbc_chain_one_block)

lemma cbc_chain_length:
  "block_preserving f \<Longrightarrow> length iv = 16 \<Longrightarrow>
   length (cbc_chain f iv pt) = 16 * (length pt div 16)"
proof (induction f iv pt rule: cbc_chain.induct)
  case (1 f iv pt)
  show ?case
  proof (cases "length pt < 16")
    case True
    then show ?thesis by (simp add: cbc_chain_short)
  next
    case False
    define c where "c = f (xor_bytes iv (take 16 pt))"
    have c: "length c = 16"
      using 1(2,3) False by (simp add: c_def block_preserving_def)
    have "length (cbc_chain f c (drop 16 pt)) = 16 * (length (drop 16 pt) div 16)"
      using 1(1) [OF False c_def 1(2) c] .
    moreover have "length pt div 16 = Suc ((length pt - 16) div 16)"
      using False by (simp add: le_div_geq)
    ultimately show ?thesis
      using False c by (simp add: cbc_chain_step c_def [symmetric])
  qed
qed

lemma cbc_chain_extended:
  "block_preserving f \<Longrightarrow> length iv = 16 \<Longrightarrow> length pt mod 16 = 0 \<Longrightarrow> length ys = 16 \<Longrightarrow>
   take (length (cbc_chain f iv (pt @ ys)) - 16) (cbc_chain f iv (pt @ ys)) = cbc_chain f iv pt"
proof (induction f iv pt rule: cbc_chain.induct)
  case (1 f iv pt)
  show ?case
  proof (cases "length pt < 16")
    case True
    then have "pt = []" using 1(4) by simp
    then show ?thesis
      using 1(2,3,5) by (simp add: cbc_chain_one_block cbc_chain_short block_preserving_def)
  next
    case False
    define c where "c = f (xor_bytes iv (take 16 pt))"
    have c: "length c = 16"
      using 1(2,3) False by (simp add: c_def block_preserving_def)
    have m: "length (drop 16 pt) mod 16 = 0"
      using 1(4) False by (simp add: le_mod_geq)
    have ih: "take (length (cbc_chain f c (drop 16 pt @ ys)) - 16) (cbc_chain f c (drop 16 pt @ ys))
          = cbc_chain f c (drop 16 pt)"
      using 1(1) [OF False c_def 1(2) c m 1(5)] .
    have l: "16 \<le> length (cbc_chain f c (drop 16 pt @ ys))"
      using cbc_chain_length [OF 1(2) c, of "drop 16 pt @ ys"] 1(5) by simp
    have e1: "cbc_chain f iv (pt @ ys) = c @ cbc_chain f c (drop 16 pt @ ys)"
      using False by (simp add: cbc_chain_step [of "pt @ ys"] c_def)
    have e2: "cbc_chain f iv pt = c @ cbc_chain f c (drop 16 pt)"
      using False by (simp add: cbc_chain_step [of pt] c_def)
    show ?thesis
      unfolding e1 e2 using c l ih by simp
  qed
qed

lemma pkcs7_aligned:
  "length pt mod 16 = 0 \<Longrightarrow> pkcs7 pt = pt @ replicate 16 16"
  by (simp add: pkcs7_def)

text \<open>On a block-aligned plaintext the three closures do the same.\<close>

lemma call_cbc_WebCrypto:
  assumes "block_preserving (E k)" and "length pt mod 16 = 0"
  shows "call_cbc E (WebCryptoCBC k) h pt = Inr (new_array h (cbc_chain (E k) zeroBlock pt))"
  using cbc_chain_extended [OF assms(1) zeroBlock_length assms(2), of "replicate 16 16"]
  by (simp add: webCrypto_encrypt_def pkcs7_aligned [OF assms(2)] blockLength_def Let_def)

lemma call_cbc_Node:
  "valid_key_length k \<Longrightarrow>
   call_cbc E (NodeCBC k) h pt = Inr (new_array h (cbc_chain (E k) zeroBlock pt))"
  by (simp add: createCipheriv_def cipher_update_def)

lemma call_cbc_Asm:
  "valid_key_length k \<Longrightarrow> length pt mod 16 = 0 \<Longrightarrow>
   call_cbc E (AsmCBC k) h pt = Inr (new_array h (cbc_chain (E k) zeroBlock pt))"
  by (simp add: AES_CBC_encrypt_def)

lemma call_cbc_aligned:
  assumes "block_preserving (E (key_of c))" and "valid_key_length (key_of c)"
    and "length pt mod 16 = 0"
  shows "call_cbc E c h pt = Inr (new_array h (cbc_chain (E (key_of c)) zeroBlock pt))"
  using assms
  by (cases c) (simp_all only: key_of.simps call_cbc_WebCrypto call_cbc_Node call_cbc_Asm)

lemma call_cbc_allocates:
  assumes "valid_key_length (key_of c)" and "length pt mod 16 = 0"
  shows "\<exists>ct. call_cbc E c h pt = Inr (new_array h ct)"
  using assms
  by (cases c) (auto simp add: createCipheriv_def AES_CBC_encrypt_def Let_def)

lemma call_cbc_not_malformed:
  "length pt mod 16 = 0 \<Longrightarrow> call_cbc E c h pt \<noteq> Inl MalformedInput"
  by (cases c) (simp_all add: createCipheriv_def AES_CBC_encrypt_def Let_def)

lemma call_cbc_key_accepted:
  "valid_key_length (key_of c) \<Longrightarrow> call_cbc E c h pt \<noteq> Inl InvalidKeyLength"
  by (cases c) (simp_all add: createCipheriv_def AES_CBC_encrypt_def Let_def)

subsection \<open>\<open>CBC\<close> and \<open>CMAC\<close>\<close>

lemma CBC_valid:
  "valid_key_length key \<Longrightarrow> \<exists>c. CBC e key = Inr c \<and> key_of c = key"
  by (simp add: CBC_def importKey_def)

lemma CBC_invalid:
  "\<not> valid_key_length key \<Longrightarrow>
   CBC e key = (if webCryptoAll e then Inl InvalidKeyLength
                else if nodeCrypto e then Inr (NodeCBC key) else Inr (AsmCBC key))"
  by (auto simp add: CBC_def importKey_def valid_key_length_def)

lemma CBC_key_of: "CBC e key = Inr c \<Longrightarrow> key_of c = key"
  by (auto simp add: CBC_def importKey_def split: if_splits)

lemma CBC_WebCrypto_valid: "CBC e key = Inr (WebCryptoCBC k) \<Longrightarrow> valid_key_length k"
  by (auto simp add: CBC_def importKey_def split: if_splits)

text \<open>What \<open>CMAC\<close> returns for an accepted key.\<close>

lemma CMAC_valid:
  assumes "block_preserving (E key)" and "valid_key_length key"
  shows "\<exists>c. CBC e key = Inr c \<and> key_of c = key \<and>
           CMAC E e h key =
             Inr (h\<lparr>arr := (arr h)(nxt h := double_spec (E key zeroBlock),
                                     Suc (nxt h) := double_spec (double_spec (E key zeroBlock))),
                    nxt := Suc (Suc (nxt h))\<rparr>,
                  \<lparr>m_cbc = c, m_padding = nxt h, m_padding2 = Suc (nxt h)\<rparr>)"
proof -
  obtain c where c: "CBC e key = Inr c" "key_of c = key"
    using CBC_valid [OF assms(2)] by blast
  let ?L = "E key zeroBlock"
  have L: "length ?L = 16"
    using assms(1) by (simp add: block_preserving_def)
  have call: "call_cbc E c h zeroBlock = Inr (new_array h ?L)"
    using call_cbc_aligned [of E c zeroBlock h] assms c(2) by (simp add: cbc_chain_zeroBlock)
  define h1 where "h1 = h\<lparr>arr := (arr h)(nxt h := ?L), nxt := Suc (nxt h)\<rparr>"
  have n: "new_array h ?L = (h1, nxt h)"
    by (simp add: new_array_def h1_def)
  have m1: "mul2 h1 (nxt h) = (h1\<lparr>arr := (arr h1)(nxt h := double_spec ?L)\<rparr>, nxt h)"
    using mul2_block [of h1 "nxt h"] L by (simp add: h1_def)
  define h2 where "h2 = h1\<lparr>arr := (arr h1)(nxt h := double_spec ?L)\<rparr>"
  define h3 where "h3 = h2\<lparr>arr := (arr h2)(Suc (nxt h) := double_spec ?L), nxt := Suc (Suc (nxt h))\<rparr>"
  have s: "slice h2 (nxt h) = (h3, Suc (nxt h))"
    by (simp add: slice_def new_array_def h2_def h3_def h1_def)
  have m2: "mul2 h3 (Suc (nxt h)) =
      (h3\<lparr>arr := (arr h3)(Suc (nxt h) := double_spec (double_spec ?L))\<rparr>, Suc (nxt h))"
    using mul2_block [of h3 "Suc (nxt h)"] by (simp add: h3_def)
  have "CMAC E e h key =
      Inr (h3\<lparr>arr := (arr h3)(Suc (nxt h) := double_spec (double_spec ?L))\<rparr>,
           \<lparr>m_cbc = c, m_padding = nxt h, m_padding2 = Suc (nxt h)\<rparr>)"
    by (simp add: CMAC_def c(1) call n m1 h2_def [symmetric] s m2)
  moreover have "h3\<lparr>arr := (arr h3)(Suc (nxt h) := double_spec (double_spec ?L))\<rparr> =
      h\<lparr>arr := (arr h)(nxt h := double_spec ?L, Suc (nxt h) := double_spec (double_spec ?L)),
        nxt := Suc (Suc (nxt h))\<rparr>"
    by (simp add: h3_def h2_def h1_def)
  ultimately show ?thesis using c by simp
qed

lemma CMAC_invalid:
  "\<not> valid_key_length key \<Longrightarrow> CMAC E e h key = Inl InvalidKeyLength"
  by (simp add: CMAC_def CBC_invalid createCipheriv_def AES_CBC_encrypt_def)

lemma CMAC_succeeds:
  assumes "valid_key_length key"
  shows "\<exists>h' m. CMAC E e h key = Inr (h', m)"
proof -
  obtain c where c: "CBC e key = Inr c" "key_of c = key"
    using CBC_valid [OF assms] by blast
  have "\<exists>h1 l. call_cbc E c h zeroBlock = Inr (h1, l)"
    using assms c(2)
    by (cases c) (simp_all add: createCipheriv_def AES_CBC_encrypt_def Let_def new_array_def)
  then obtain h1 l where "call_cbc E c h zeroBlock = Inr (h1, l)" by blast
  then show ?thesis
    by (simp add: CMAC_def c(1) Let_def split: prod.splits)
qed

lemma CMAC_key:
  assumes "CMAC E e h key = Inr (h', m)"
  shows "valid_key_length key \<and> key_of (m_cbc m) = key"
proof -
  have v: "valid_key_length key"
    using assms CMAC_invalid [of key E e h] by auto
  obtain c where c: "CBC e key = Inr c" "key_of c = key"
    using CBC_valid [OF v] by blast
  have "m_cbc m = c"
    using assms by (auto simp add: CMAC_def c(1) Let_def split: sum.splits prod.splits)
  then show ?thesis using v c(2) by simp
qed

subsection \<open>The closure on a message\<close>

lemma MacFunction_eq:
  fixes h :: heap and data :: ref
  assumes "block_preserving (E (key_of (m_cbc m)))" and "valid_key_length (key_of (m_cbc m))"
  defines "p \<equiv> pad h data (m_padding m) (m_padding2 m)"
  defines "ct \<equiv> cbc_chain (E (key_of (m_cbc m))) zeroBlock (arr (fst p) (snd p))"
  shows "MacFunction E m h data =
           Inr (fst (new_array (fst p) ct), drop (length ct - 16) ct)"
proof -
  obtain h1 r where pr: "pad h data (m_padding m) (m_padding2 m) = (h1, r)"
    by (cases "pad h data (m_padding m) (m_padding2 m)")
  have "length (arr (fst p) (snd p)) mod 16 = 0"
    unfolding p_def by (rule pad_result_aligned)
  then have "call_cbc E (m_cbc m) (fst p) (arr (fst p) (snd p)) = Inr (new_array (fst p) ct)"
    using call_cbc_aligned [of E "m_cbc m" "arr (fst p) (snd p)" "fst p"] assms(1,2)
    by (simp add: ct_def)
  then have "call_cbc E (m_cbc m) h1 (arr h1 r) = Inr (new_array h1 ct)"
    by (simp add: p_def pr)
  then show ?thesis
    by (simp add: MacFunction_def pr p_def new_array_def blockLength_def)
qed

lemma MacFunction_returns:
  assumes "valid_key_length (key_of (m_cbc m))"
  shows "\<exists>ct tag. MacFunction E m h data =
           Inr (fst (new_array (fst (pad h data (m_padding m) (m_padding2 m))) ct), tag)"
proof -
  obtain h1 r where pr: "pad h data (m_padding m) (m_padding2 m) = (h1, r)"
    by (cases "pad h data (m_padding m) (m_padding2 m)")
  have "length (arr h1 r) mod 16 = 0"
    using pad_result_aligned [of h data "m_padding m" "m_padding2 m"] by (simp add: pr)
  from call_cbc_allocates [OF assms this]
  obtain ct where "call_cbc E (m_cbc m) h1 (arr h1 r) = Inr (new_array h1 ct)"
    by blast
  then show ?thesis
    by (auto simp add: MacFunction_def pr new_array_def)
qed

text \<open>
  What the closure returns, and the store it leaves, in the three cases of the message
  length: empty, a positive multiple of 16, anything else.
\<close>

lemma MacFunction_empty:
  assumes "block_preserving (E (key_of (m_cbc m)))" and "valid_key_length (key_of (m_cbc m))"
    and "arr h data = []"
  shows "MacFunction E m h data =
           Inr (h\<lparr>arr := (arr h)(nxt h := []), nxt := Suc (nxt h)\<rparr>, [])"
proof -
  have p: "pad h data (m_padding m) (m_padding2 m) = (h, data)"
    using assms(3) by (simp add: pad_def rightXorMut_empty)
  have "call_cbc E (m_cbc m) h [] = Inr (new_array h [])"
    using call_cbc_aligned [of E "m_cbc m" "[]" h] assms(1,2) by (simp add: cbc_chain_short)
  then show ?thesis
    by (simp add: MacFunction_def p assms(3) new_array_def)
qed

lemma MacFunction_aligned:
  assumes "block_preserving (E (key_of (m_cbc m)))" and "valid_key_length (key_of (m_cbc m))"
    and "0 < length (arr h data)" and "length (arr h data) mod 16 = 0"
    and "data \<noteq> m_padding m" and "length (arr h (m_padding m)) = 16"
  defines "X \<equiv> take (length (arr h data) - 16) (arr h data) @
                xor_bytes (drop (length (arr h data) - 16) (arr h data)) (arr h (m_padding m))"
  defines "ct \<equiv> cbc_chain (E (key_of (m_cbc m))) zeroBlock X"
  shows "MacFunction E m h data =
           Inr (h\<lparr>arr := (arr h)(data := X, nxt h := ct), nxt := Suc (nxt h)\<rparr>,
                drop (length ct - 16) ct)"
proof -
  have n16: "16 \<le> length (arr h data)"
    using assms(3,4) by (auto simp add: mod_eq_0_iff_dvd dest: dvd_imp_le)
  have p: "pad h data (m_padding m) (m_padding2 m) = (h\<lparr>arr := (arr h)(data := X)\<rparr>, data)"
    using rightXorMut_heap [OF assms(5) n16] assms(6)
    by (simp add: pad_aligned_eq [OF assms(4)] X_def)
  have "length X mod 16 = 0"
    using n16 assms(4,6) by (simp add: X_def)
  then have "call_cbc E (m_cbc m) (h\<lparr>arr := (arr h)(data := X)\<rparr>) X =
      Inr (new_array (h\<lparr>arr := (arr h)(data := X)\<rparr>) ct)"
    using call_cbc_aligned [of E "m_cbc m" X] assms(1,2) by (simp add: ct_def)
  then show ?thesis
    by (simp add: MacFunction_def p new_array_def blockLength_def)
qed

lemma MacFunction_unaligned:
  assumes "block_preserving (E (key_of (m_cbc m)))" and "valid_key_length (key_of (m_cbc m))"
    and "length (arr h data) mod 16 \<noteq> 0"
    and "data < nxt h" and "m_padding2 m < nxt h" and "length (arr h (m_padding2 m)) = 16"
  defines "ext \<equiv> arr h data @ 0x80 # replicate (15 - length (arr h data) mod 16) 0"
  defines "X \<equiv> take (length ext - 16) ext @
                xor_bytes (drop (length ext - 16) ext) (arr h (m_padding2 m))"
  defines "ct \<equiv> cbc_chain (E (key_of (m_cbc m))) zeroBlock X"
  shows "MacFunction E m h data =
           Inr (h\<lparr>arr := (arr h)(nxt h := X, Suc (nxt h) := ct), nxt := Suc (Suc (nxt h))\<rparr>,
                drop (length ct - 16) ct)"
proof -
  define h3 where "h3 = h\<lparr>arr := (arr h)(nxt h := ext), nxt := Suc (nxt h)\<rparr>"
  have eq: "pad h data (m_padding m) (m_padding2 m) = rightXorMut h3 (nxt h) (m_padding2 m)"
    using pad_unaligned_eq [OF assms(3,4)] by (simp add: h3_def ext_def)
  have len: "length ext = length (arr h data) + (16 - length (arr h data) mod 16)"
    unfolding ext_def by (rule padded_length)
  have al: "length ext mod 16 = 0"
    unfolding ext_def by (rule padded_length_aligned)
  have ne: "nxt h \<noteq> m_padding2 m" using assms(5) by simp
  have c: "arr h3 (nxt h) = ext" "arr h3 (m_padding2 m) = arr h (m_padding2 m)"
    using ne by (simp_all add: h3_def)
  have l16: "16 \<le> length (arr h3 (nxt h))"
    using len by (simp add: c)
  have p: "pad h data (m_padding m) (m_padding2 m) = (h3\<lparr>arr := (arr h3)(nxt h := X)\<rparr>, nxt h)"
    using rightXorMut_heap [OF ne l16] assms(6)
    by (simp add: eq c X_def)
  have "length X mod 16 = 0"
    using l16 al assms(6) by (simp add: X_def c)
  then have "call_cbc E (m_cbc m) (h3\<lparr>arr := (arr h3)(nxt h := X)\<rparr>) X =
      Inr (new_array (h3\<lparr>arr := (arr h3)(nxt h := X)\<rparr>) ct)"
    using call_cbc_aligned [of E "m_cbc m" X] assms(1,2) by (simp add: ct_def)
  then show ?thesis
    by (simp add: MacFunction_def p new_array_def blockLength_def h3_def)
qed

text \<open>
  For a non-empty message the tag is the last ciphertext block of the CBC encryption of
  what \<open>pad\<close> returns, 16 bytes long.
\<close>

lemma MacFunction_tag_nonempty:
  assumes "block_preserving (E (key_of (m_cbc m)))" and "valid_key_length (key_of (m_cbc m))"
    and "arr h data \<noteq> []"
  shows "\<exists>h' tag. MacFunction E m h data = Inr (h', tag) \<and> length tag = 16 \<and>
           tag = (let p = pad h data (m_padding m) (m_padding2 m);
                      ct = cbc_chain (E (key_of (m_cbc m))) zeroBlock (arr (fst p) (snd p))
                  in drop (length ct - 16) ct)"
proof -
  let ?p = "pad h data (m_padding m) (m_padding2 m)"
  let ?X = "arr (fst ?p) (snd ?p)"
  let ?ct = "cbc_chain (E (key_of (m_cbc m))) zeroBlock ?X"
  have n: "0 < length (arr h data)" using assms(3) by simp
  have "16 \<le> length ?X"
  proof (cases "length (arr h data) mod 16 = 0")
    case True
    then have "16 \<le> length (arr h data)"
      using n by (auto simp add: mod_eq_0_iff_dvd dest: dvd_imp_le)
    then show ?thesis using True by (simp add: pad_result_length)
  next
    case False
    have "length (arr h data) mod 16 < 16" by simp
    then show ?thesis using False by (simp add: pad_result_length)
  qed
  moreover have "length ?X mod 16 = 0"
    by (rule pad_result_aligned)
  ultimately have "16 * (length ?X div 16) = length ?X" "16 \<le> length ?X"
    using div_mult_mod_eq [of "length ?X" 16] by (simp_all only: add_0_right mult.commute)
  then have "16 \<le> length ?ct"
    using cbc_chain_length [of "E (key_of (m_cbc m))" zeroBlock ?X] assms(1) by simp
  then have "length (drop (length ?ct - 16) ?ct) = 16"
    by simp
  then show ?thesis
    using MacFunction_eq [of E m h data] assms(1,2) by (simp add: Let_def)
qed

lemma new_array_after_pad_other:
  assumes "r < nxt h" and "r \<noteq> data" and "data < nxt h"
  shows "arr (fst (new_array (fst (pad h data p p2)) ct)) r = arr h r"
proof -
  have "r \<noteq> nxt (fst (pad h data p p2))"
    using pad_nxt [of h data p p2] assms(1) by simp
  then show ?thesis
    using pad_other [OF assms] by (simp add: new_array_def)
qed



subsection \<open>The reference cipher on the known-answer vectors\<close>

lemma zeroBlock_eq: "zeroBlock = [0, 0, 0, 0, 0, 0, 0, 0, 0, 0, 0, 0, 0, 0, 0, 0]"
  by (simp add: zeroBlock_def blockLength_def eval_nat_numeral)

lemma replicate_16: "replicate 16 x = [x, x, x, x, x, x, x, x, x, x, x, x, x, x, x, x]"
  by (simp add: eval_nat_numeral)

lemma replicate_15: "replicate 15 x = [x, x, x, x, x, x, x, x, x, x, x, x, x, x, x]"
  by (simp add: eval_nat_numeral)

lemma upt_0_15: "[0..<15] = [0, 1, 2, 3, 4, 5, 6, 7, 8, 9, 10, 11, 12, 13, 14]"
  by (simp add: upt_rec)

lemma rfc_round_keys:
  "key_expansion [0x01, 0x02, 0x04, 0x08, 0x10, 0x20, 0x40, 0x80, 0x1b, 0x36] rfc_key =
     [[0x2b, 0x7e, 0x15, 0x16, 0x28, 0xae, 0xd2, 0xa6, 0xab, 0xf7, 0x15, 0x88, 0x09, 0xcf, 0x4f, 0x3c],
      [0xa0, 0xfa, 0xfe, 0x17, 0x88, 0x54, 0x2c, 0xb1, 0x23, 0xa3, 0x39, 0x39, 0x2a, 0x6c, 0x76, 0x05],
      [0xf2, 0xc2, 0x95, 0xf2, 0x7a, 0x96, 0xb9, 0x43, 0x59, 0x35, 0x80, 0x7a, 0x73, 0x59, 0xf6, 0x7f],
      [0x3d, 0x80, 0x47, 0x7d, 0x47, 0x16, 0xfe, 0x3e, 0x1e, 0x23, 0x7e, 0x44, 0x6d, 0x7a, 0x88, 0x3b],
      [0xef, 0x44, 0xa5, 0x41, 0xa8, 0x52, 0x5b, 0x7f, 0xb6, 0x71, 0x25, 0x3b, 0xdb, 0x0b, 0xad, 0x00],
      [0xd4, 0xd1, 0xc6, 0xf8, 0x7c, 0x83, 0x9d, 0x87, 0xca, 0xf2, 0xb8, 0xbc, 0x11, 0xf9, 0x15, 0xbc],
      [0x6d, 0x88, 0xa3, 0x7a, 0x11, 0x0b, 0x3e, 0xfd, 0xdb, 0xf9, 0x86, 0x41, 0xca, 0x00, 0x93, 0xfd],
      [0x4e, 0x54, 0xf7, 0x0e, 0x5f, 0x5f, 0xc9, 0xf3, 0x84, 0xa6, 0x4f, 0xb2, 0x4e, 0xa6, 0xdc, 0x4f],
      [0xea, 0xd2, 0x73, 0x21, 0xb5, 0x8d, 0xba, 0xd2, 0x31, 0x2b, 0xf5, 0x60, 0x7f, 0x8d, 0x29, 0x2f],
      [0xac, 0x77, 0x66, 0xf3, 0x19, 0xfa, 0xdc, 0x21, 0x28, 0xd1, 0x29, 0x41, 0x57, 0x5c, 0x00, 0x6e],
      [0xd0, 0x14, 0xf9, 0xa8, 0xc9, 0xee, 0x25, 0x89, 0xe1, 0x3f, 0x0c, 0xc8, 0xb6, 0x63, 0x0c, 0xa6]]"
  by (simp add: rfc_key_def xor_bytes_def next_round_key_def sub_byte_def sbox_def xor_words_def)

lemma shift_rows_length [simp]: "length (shift_rows s) = 16"
  by (simp add: shift_rows_def)

lemma cipher_rounds_length:
  "ks \<noteq> [] \<Longrightarrow> \<forall>k\<in>set ks. length k = 16 \<Longrightarrow> length (cipher_rounds ks s) = 16"
  by (induction ks s rule: cipher_rounds.induct) simp_all

lemma aes128_rfc_key_length: "length (aes128 rfc_key b) = 16"
  unfolding aes128_def rfc_round_keys
  by (rule cipher_rounds_length) simp_all

lemma aes128_rfc_key_block_preserving: "block_preserving (aes128 rfc_key)"
  by (simp add: block_preserving_def aes128_rfc_key_length)

lemma aes128_rfc_zero:
  "aes128 rfc_key zeroBlock =
     [0x7d, 0xf7, 0x6b, 0x0c, 0x1a, 0xb8, 0x99, 0xb3, 0x3e, 0x42, 0xf0, 0x47, 0xb9, 0x1b, 0x54, 0x6f]"
  unfolding aes128_def rfc_round_keys zeroBlock_eq
  by (simp add: rfc_key_def xor_bytes_def sub_byte_def sbox_def
        sub_bytes_def shift_rows_def mix_columns_def mix_column_def xtime_def)

lemma aes128_rfc_message_block:
  "aes128 rfc_key (xor_bytes rfc_message rfc_K1) =
     [0x07, 0x0a, 0x16, 0xb4, 0x6b, 0x4d, 0x41, 0x44, 0xf7, 0x9b, 0xdd, 0x9d, 0xd0, 0x4a, 0x28, 0x7c]"
  unfolding aes128_def rfc_round_keys
  by (simp add: rfc_key_def rfc_message_def rfc_K1_def xor_bytes_def sub_byte_def sbox_def
        sub_bytes_def shift_rows_def mix_columns_def mix_column_def xtime_def)

lemma rfc_K1_double:
  "double_spec [0x7d, 0xf7, 0x6b, 0x0c, 0x1a, 0xb8, 0x99, 0xb3,
                0x3e, 0x42, 0xf0, 0x47, 0xb9, 0x1b, 0x54, 0x6f] = rfc_K1"
  by (simp add: double_spec_bytes rfc_K1_def)

lemma rfc_K2_double: "double_spec rfc_K1 = rfc_K2"
  by (simp add: double_spec_bytes rfc_K1_def rfc_K2_def)

lemma rfc_key_valid: "valid_key_length rfc_key"
  by (simp add: valid_key_length_def rfc_key_def)

lemma rfc_subkeys:
  "double_spec (aes128 rfc_key zeroBlock) = rfc_K1"
  "double_spec (double_spec (aes128 rfc_key zeroBlock)) = rfc_K2"
  by (simp_all only: aes128_rfc_zero rfc_K1_double rfc_K2_double)

lemma rfc_K_length [simp]: "length rfc_K1 = 16" "length rfc_K2 = 16"
  by (simp_all add: rfc_K1_def rfc_K2_def)

lemma rfc_message_length [simp]: "length rfc_message = 16"
  by (simp add: rfc_message_def)

lemma rfc_message_xor_K1:
  "xor_bytes rfc_message rfc_K1 =
     [0x90, 0x2f, 0x68, 0xfa, 0x1b, 0x31, 0xac, 0xf0,
      0x95, 0xb8, 0x9e, 0x9e, 0x01, 0xa5, 0xbf, 0xf4]"
  by (simp add: rfc_message_def rfc_K1_def xor_bytes_def)

lemma rfc_message_5:
  "length (take 5 rfc_message) = 5"
  "xor_bytes (take 5 rfc_message @ 0x80 # replicate 10 0) rfc_K2 =
     [0x9c, 0x1c, 0x12, 0xd2, 0x44, 0x62, 0x66, 0xcc,
      0xf9, 0x0b, 0xc1, 0x1e, 0xe4, 0x6d, 0x51, 0x3b]"
  by (simp_all add: rfc_message_def rfc_K2_def xor_bytes_def eval_nat_numeral)

lemma rfc_tag_chain:
  "cbc_chain (aes128 rfc_key) zeroBlock
     [0x90, 0x2f, 0x68, 0xfa, 0x1b, 0x31, 0xac, 0xf0,
      0x95, 0xb8, 0x9e, 0x9e, 0x01, 0xa5, 0xbf, 0xf4] =
     [0x07, 0x0a, 0x16, 0xb4, 0x6b, 0x4d, 0x41, 0x44, 0xf7, 0x9b, 0xdd, 0x9d, 0xd0, 0x4a, 0x28, 0x7c]"
  unfolding rfc_message_xor_K1 [symmetric]
  by (simp add: cbc_chain_one_block xor_zeroBlock_left aes128_rfc_message_block)

subsection \<open>The example store\<close>

lemma example_heap_simps [simp]:
  "arr (example_heap msg) 0 = msg"
  "arr (example_heap msg) 1 = rfc_K1"
  "arr (example_heap msg) (Suc 0) = rfc_K1"
  "arr (example_heap msg) 2 = rfc_K2"
  "nxt (example_heap msg) = 3"
  by (simp_all add: example_heap_def)

lemma example_mac_simps [simp]:
  "m_cbc example_mac = NodeCBC rfc_key"
  "m_padding example_mac = 1"
  "m_padding2 example_mac = 2"
  by (simp_all add: example_mac_def)

lemma example_prepared: "prepared aes128 rfc_key (example_heap msg) example_mac"
  by (simp add: prepared_def rfc_key_valid rfc_subkeys rfc_K2_double)

lemma new_array_empty_heap:
  "new_array empty_heap msg = (\<lparr>arr = (\<lambda>_. [])(0 := msg), nxt = 1\<rparr>, 0)"
  by (simp add: new_array_def empty_heap_def)

lemma CMAC_example:
  "CMAC aes128 example_env (fst (new_array empty_heap msg)) rfc_key =
     Inr (example_heap msg, example_mac)"
proof -
  have c: "CBC example_env rfc_key = Inr (NodeCBC rfc_key)"
    by (simp add: CBC_def example_env_def)
  show ?thesis
    unfolding new_array_empty_heap fst_conv
    using CMAC_valid [of aes128 rfc_key example_env "\<lparr>arr = (\<lambda>_. [])(0 := msg), nxt = 1\<rparr>"]
      aes128_rfc_key_block_preserving rfc_key_valid
    by (simp add: c rfc_subkeys rfc_K2_double example_heap_def example_mac_def
          numeral_2_eq_2 numeral_3_eq_3)
qed

lemma CMAC_rfc_key:
  "\<exists>c. key_of c = rfc_key \<and>
       CMAC aes128 e (fst (new_array empty_heap msg)) rfc_key =
         Inr (example_heap msg, \<lparr>m_cbc = c, m_padding = 1, m_padding2 = 2\<rparr>)"
  unfolding new_array_empty_heap fst_conv
  using CMAC_valid [of aes128 rfc_key e "\<lparr>arr = (\<lambda>_. [])(0 := msg), nxt = 1\<rparr>"]
    aes128_rfc_key_block_preserving rfc_key_valid
  by (auto simp add: rfc_subkeys rfc_K2_double example_heap_def numeral_2_eq_2 numeral_3_eq_3)

lemma MacFunction_rfc_message:
  assumes "key_of c = rfc_key"
  shows "MacFunction aes128 \<lparr>m_cbc = c, m_padding = 1, m_padding2 = 2\<rparr> (example_heap rfc_message) 0 =
     Inr ((example_heap rfc_message)
            \<lparr>arr := (arr (example_heap rfc_message))
               (0 := [0x90, 0x2f, 0x68, 0xfa, 0x1b, 0x31, 0xac, 0xf0,
                      0x95, 0xb8, 0x9e, 0x9e, 0x01, 0xa5, 0xbf, 0xf4],
                3 := [0x07, 0x0a, 0x16, 0xb4, 0x6b, 0x4d, 0x41, 0x44,
                      0xf7, 0x9b, 0xdd, 0x9d, 0xd0, 0x4a, 0x28, 0x7c]),
              nxt := 4\<rparr>,
          [0x07, 0x0a, 0x16, 0xb4, 0x6b, 0x4d, 0x41, 0x44,
           0xf7, 0x9b, 0xdd, 0x9d, 0xd0, 0x4a, 0x28, 0x7c])"
proof -
  let ?m = "\<lparr>m_cbc = c, m_padding = 1, m_padding2 = 2\<rparr>"
  let ?h = "example_heap rfc_message"
  have "MacFunction aes128 ?m ?h 0 =
      Inr (?h\<lparr>arr := (arr ?h)(0 := xor_bytes rfc_message rfc_K1,
                    nxt ?h := cbc_chain (aes128 rfc_key) zeroBlock (xor_bytes rfc_message rfc_K1)),
              nxt := Suc (nxt ?h)\<rparr>,
           drop (length (cbc_chain (aes128 rfc_key) zeroBlock (xor_bytes rfc_message rfc_K1)) - 16)
             (cbc_chain (aes128 rfc_key) zeroBlock (xor_bytes rfc_message rfc_K1)))"
    using MacFunction_aligned [of aes128 ?m ?h 0] assms
      aes128_rfc_key_block_preserving rfc_key_valid
    by simp
  then show ?thesis
    unfolding rfc_message_xor_K1 rfc_tag_chain
    by (auto simp add: example_heap_def fun_eq_iff)
qed

section \<open>The claims\<close>

subsection \<open>C1: the known-answer vectors\<close>

text \<open>
  Claim C1: under the key \<open>2b7e1516 28aed2a6 abf71588 09cf4f3c\<close>, on every platform, the
  16-byte message gets the tag \<open>070a16b4 6b4d4144 f79bdd9d d04a287c\<close>. The empty message
  does not get \<open>bb1d6929 e9593728 7fa37d12 9b756746\<close>: it gets the empty tag.
\<close>

theorem cmac_known_answers:
  "cmac_of aes128 e rfc_key rfc_message =
     Inr [0x07, 0x0a, 0x16, 0xb4, 0x6b, 0x4d, 0x41, 0x44,
          0xf7, 0x9b, 0xdd, 0x9d, 0xd0, 0x4a, 0x28, 0x7c] \<and>
   cmac_of aes128 e rfc_key [] = Inr [] \<and>
   cmac_of aes128 e rfc_key [] \<noteq>
     Inr [0xbb, 0x1d, 0x69, 0x29, 0xe9, 0x59, 0x37, 0x28,
          0x7f, 0xa3, 0x7d, 0x12, 0x9b, 0x75, 0x67, 0x46]"
proof -
  define h0 where "h0 = fst (new_array empty_heap rfc_message)"
  define h0' where "h0' = fst (new_array empty_heap [])"
  have n: "new_array empty_heap rfc_message = (h0, 0)" "new_array empty_heap [] = (h0', 0)"
    by (simp_all add: h0_def h0'_def new_array_empty_heap)
  obtain c where c: "key_of c = rfc_key"
    and p: "CMAC aes128 e h0 rfc_key =
         Inr (example_heap rfc_message, \<lparr>m_cbc = c, m_padding = 1, m_padding2 = 2\<rparr>)"
    using CMAC_rfc_key [of e rfc_message] unfolding h0_def by blast
  have a: "cmac_of aes128 e rfc_key rfc_message =
     Inr [0x07, 0x0a, 0x16, 0xb4, 0x6b, 0x4d, 0x41, 0x44,
          0xf7, 0x9b, 0xdd, 0x9d, 0xd0, 0x4a, 0x28, 0x7c]"
    using p MacFunction_rfc_message [OF c] by (simp add: cmac_of_def n)
  obtain c' where c': "key_of c' = rfc_key"
    and p': "CMAC aes128 e h0' rfc_key =
         Inr (example_heap [], \<lparr>m_cbc = c', m_padding = 1, m_padding2 = 2\<rparr>)"
    using CMAC_rfc_key [of e "[]"] unfolding h0'_def by blast
  have "MacFunction aes128 \<lparr>m_cbc = c', m_padding = 1, m_padding2 = 2\<rparr> (example_heap []) 0 =
      Inr ((example_heap [])\<lparr>arr := (arr (example_heap []))(nxt (example_heap []) := []),
                              nxt := Suc (nxt (example_heap []))\<rparr>, [])"
    using MacFunction_empty [of aes128 "\<lparr>m_cbc = c', m_padding = 1, m_padding2 = 2\<rparr>"
        "example_heap []" 0] c' aes128_rfc_key_block_preserving rfc_key_valid
    by simp
  then have b: "cmac_of aes128 e rfc_key [] = Inr []"
    using p' by (simp add: cmac_of_def n)
  show ?thesis
    using a b by simp
qed

subsection \<open>C2: \<open>pad\<close> on the empty message\<close>

text \<open>
  Claim C2 says that \<open>pad\<close> sends the empty message through the padding branch and returns
  the block \<open>0x80 00 \<dots> 00\<close> XORed with K2. The code tests \<^verbatim>\<open>data.length % blockLength === 0\<close>,
  which holds for length 0: the empty message goes through the branch for aligned messages,
  where every write of \<open>rightXorMut\<close> falls outside the array. \<open>pad\<close> returns the caller's
  empty array itself, and the store is unchanged.
\<close>

theorem pad_empty_message_unpadded:
  "arr h data = [] \<Longrightarrow> pad h data padding padding2 = (h, data)"
  by (simp add: pad_def rightXorMut_empty)

theorem pad_empty_message_unpadded_witness:
  "arr (example_heap []) 0 = [] \<and>
   pad (example_heap []) 0 1 2 = (example_heap [], 0) \<and>
   length (arr (fst (pad (example_heap []) 0 1 2)) (snd (pad (example_heap []) 0 1 2))) = 0"
  using pad_empty_message_unpadded [of "example_heap []" 0 1 2]
  by simp

subsection \<open>C3: \<open>pad\<close> by alignment\<close>

text \<open>
  Claim C3: a non-empty message whose length is a multiple of 16 comes back in place, with
  its last 16 bytes XORed with K1 and no byte appended; a message whose length is not a
  multiple of 16 comes back in a new array, followed by \<open>0x80\<close> and zero bytes up to the
  next multiple of 16, the last 16 bytes of that XORed with K2. K1 and K2 are the contents
  of \<open>padding\<close> and \<open>padding2\<close>.
\<close>

theorem pad_by_alignment:
  assumes "data < nxt h" and "padding2 < nxt h" and "data \<noteq> padding"
    and "length (arr h padding) = 16" and "length (arr h padding2) = 16"
  shows "(0 < length (arr h data) \<and> length (arr h data) mod 16 = 0 \<longrightarrow>
            snd (pad h data padding padding2) = data \<and>
            length (arr (fst (pad h data padding padding2)) data) = length (arr h data) \<and>
            arr (fst (pad h data padding padding2)) data =
              take (length (arr h data) - 16) (arr h data) @
              xor_bytes (drop (length (arr h data) - 16) (arr h data)) (arr h padding)) \<and>
         (length (arr h data) mod 16 \<noteq> 0 \<longrightarrow>
            (let ext = arr h data @ 0x80 # replicate (15 - length (arr h data) mod 16) 0 in
               length ext = length (arr h data) + (16 - length (arr h data) mod 16) \<and>
               length ext mod 16 = 0 \<and>
               arr (fst (pad h data padding padding2)) (snd (pad h data padding padding2)) =
                 take (length ext - 16) ext @
                 xor_bytes (drop (length ext - 16) ext) (arr h padding2)))"
proof (intro conjI impI)
  assume a: "0 < length (arr h data) \<and> length (arr h data) mod 16 = 0"
  then have eq: "pad h data padding padding2 = rightXorMut h data padding"
    by (simp add: pad_aligned_eq)
  have n16: "16 \<le> length (arr h data)"
    using a by (auto simp add: mod_eq_0_iff_dvd dest: dvd_imp_le)
  show "snd (pad h data padding padding2) = data"
    by (simp add: eq)
  show "length (arr (fst (pad h data padding padding2)) data) = length (arr h data)"
    by (simp add: eq)
  show "arr (fst (pad h data padding padding2)) data =
              take (length (arr h data) - 16) (arr h data) @
              xor_bytes (drop (length (arr h data) - 16) (arr h data)) (arr h padding)"
    using rightXorMut_aligned [OF assms(3) n16] assms(4) by (simp add: eq)
next
  assume u: "length (arr h data) mod 16 \<noteq> 0"
  define ext where "ext = arr h data @ 0x80 # replicate (15 - length (arr h data) mod 16) 0"
  define h3 where "h3 = h\<lparr>arr := (arr h)(nxt h := ext), nxt := Suc (nxt h)\<rparr>"
  have eq: "pad h data padding padding2 = rightXorMut h3 (nxt h) padding2"
    using pad_unaligned_eq [OF u assms(1)] by (simp add: h3_def ext_def)
  have len: "length ext = length (arr h data) + (16 - length (arr h data) mod 16)"
    unfolding ext_def by (rule padded_length)
  have al: "length ext mod 16 = 0"
    unfolding ext_def by (rule padded_length_aligned)
  have ne: "nxt h \<noteq> padding2" using assms(2) by simp
  have c: "arr h3 (nxt h) = ext" "arr h3 padding2 = arr h padding2"
    using ne by (simp_all add: h3_def)
  have l16: "16 \<le> length (arr h3 (nxt h))"
    using len by (simp add: c)
  have "arr (fst (rightXorMut h3 (nxt h) padding2)) (nxt h) =
          take (length ext - 16) ext @ xor_bytes (drop (length ext - 16) ext) (arr h padding2)"
    using rightXorMut_aligned [OF ne l16, unfolded c] assms(5) by simp
  then have "arr (fst (pad h data padding padding2)) (snd (pad h data padding padding2)) =
                 take (length ext - 16) ext @
                 xor_bytes (drop (length ext - 16) ext) (arr h padding2)"
    by (simp add: eq)
  then show "let ext = arr h data @ 0x80 # replicate (15 - length (arr h data) mod 16) 0 in
               length ext = length (arr h data) + (16 - length (arr h data) mod 16) \<and>
               length ext mod 16 = 0 \<and>
               arr (fst (pad h data padding padding2)) (snd (pad h data padding padding2)) =
                 take (length ext - 16) ext @
                 xor_bytes (drop (length ext - 16) ext) (arr h padding2)"
    using len al unfolding Let_def ext_def by blast
qed

theorem pad_by_alignment_witness:
  "snd (pad (example_heap rfc_message) 0 1 2) = 0 \<and>
   arr (fst (pad (example_heap rfc_message) 0 1 2)) 0 =
     [0x90, 0x2f, 0x68, 0xfa, 0x1b, 0x31, 0xac, 0xf0,
      0x95, 0xb8, 0x9e, 0x9e, 0x01, 0xa5, 0xbf, 0xf4] \<and>
   arr (fst (pad (example_heap (take 5 rfc_message)) 0 1 2))
       (snd (pad (example_heap (take 5 rfc_message)) 0 1 2)) =
     [0x9c, 0x1c, 0x12, 0xd2, 0x44, 0x62, 0x66, 0xcc,
      0xf9, 0x0b, 0xc1, 0x1e, 0xe4, 0x6d, 0x51, 0x3b]"
proof -
  have a: "snd (pad (example_heap rfc_message) 0 1 2) = 0 \<and>
      arr (fst (pad (example_heap rfc_message) 0 1 2)) 0 = xor_bytes rfc_message rfc_K1"
    using pad_by_alignment [of 0 "example_heap rfc_message" 2 1] by simp
  have "arr (fst (pad (example_heap (take 5 rfc_message)) 0 1 2))
            (snd (pad (example_heap (take 5 rfc_message)) 0 1 2)) =
        xor_bytes (take 5 rfc_message @ 0x80 # replicate 10 0) rfc_K2"
    using pad_by_alignment [of 0 "example_heap (take 5 rfc_message)" 2 1]
    by (simp add: Let_def)
  then show ?thesis
    using a by (simp only: rfc_message_xor_K1 rfc_message_5)
qed

subsection \<open>C4: the tag of the empty message\<close>

text \<open>
  Claim C4 says that the tag is the last 16 bytes of the CBC encryption of the padded
  message and is always 16 bytes long, the empty message included. On the empty message
  \<open>pad\<close> returns an empty array, the ciphertext of which is empty, and
  \<^verbatim>\<open>subarray(-blockLength)\<close> of that is empty: the tag has no byte.
\<close>

theorem MacFunction_empty_message_tag:
  assumes "block_preserving (E key)" and "prepared E key h m" and "arr h data = []"
  shows "MacFunction E m h data =
           Inr (h\<lparr>arr := (arr h)(nxt h := []), nxt := Suc (nxt h)\<rparr>, [])"
proof -
  have "key_of (m_cbc m) = key" and "valid_key_length key"
    using assms(2) by (simp_all add: prepared_def)
  then show ?thesis
    using MacFunction_empty [of E m h data] assms(1,3) by simp
qed

theorem MacFunction_empty_message_tag_witness:
  "block_preserving (aes128 rfc_key) \<and>
   prepared aes128 rfc_key (example_heap []) example_mac \<and>
   arr (example_heap []) 0 = [] \<and>
   MacFunction aes128 example_mac (example_heap []) 0 =
     Inr ((example_heap [])\<lparr>arr := (arr (example_heap []))(3 := []), nxt := 4\<rparr>, [])"
proof -
  have e: "arr (example_heap []) 0 = []"
    by simp
  have "(example_heap [])\<lparr>arr := (arr (example_heap []))(nxt (example_heap []) := []),
                           nxt := Suc (nxt (example_heap []))\<rparr> =
        (example_heap [])\<lparr>arr := (arr (example_heap []))(3 := []), nxt := 4\<rparr>"
    by simp
  then show ?thesis
    using MacFunction_empty_message_tag [OF aes128_rfc_key_block_preserving example_prepared e]
      aes128_rfc_key_block_preserving example_prepared [of "[]"] e
    by simp
qed

subsection \<open>C5: the subkeys\<close>



subsection \<open>C6: \<open>mul2\<close> is the doubling of the spec\<close>

text \<open>
  Claim C6: on a 16-byte block read as a 128-bit big-endian number, \<open>mul2\<close> shifts left by
  one bit, drops the top bit, and XORs \<open>0x87\<close> into the last byte exactly when the dropped
  bit, the \<open>0x80\<close> bit of the first byte, was set. That is the doubling of the spec. The zero
  block stays the zero block; the last byte is the shifted last byte XOR \<open>0x87\<close> when the
  first byte has its \<open>0x80\<close> bit, and the shifted last byte otherwise.
\<close>

theorem mul2_doubles:
  assumes "length (arr h data) = 16"
  shows "mul2 h data = (h\<lparr>arr := (arr h)(data := double_spec (arr h data))\<rparr>, data) \<and>
         be_val (arr (fst (mul2 h data)) data) =
           ((2 * be_val (arr h data)) mod 2 ^ 128)
             XOR (if 2 ^ 127 \<le> be_val (arr h data) then 0x87 else 0) \<and>
         (2 ^ 127 \<le> be_val (arr h data)) = (arr h data ! 0 AND 0x80 \<noteq> 0) \<and>
         (arr h data = replicate 16 0 \<longrightarrow> arr (fst (mul2 h data)) data = replicate 16 0) \<and>
         (arr h data ! 0 AND 0x80 \<noteq> 0 \<longrightarrow>
            arr (fst (mul2 h data)) data ! 15 = push_bit 1 (arr h data ! 15) XOR 0x87) \<and>
         (arr h data ! 0 AND 0x80 = 0 \<longrightarrow>
            arr (fst (mul2 h data)) data ! 15 = push_bit 1 (arr h data ! 15))"
proof (intro conjI impI)
  show "mul2 h data = (h\<lparr>arr := (arr h)(data := double_spec (arr h data))\<rparr>, data)"
    using assms by (rule mul2_block)
  show "be_val (arr (fst (mul2 h data)) data) =
           ((2 * be_val (arr h data)) mod 2 ^ 128)
             XOR (if 2 ^ 127 \<le> be_val (arr h data) then 0x87 else 0)"
    using assms by (rule be_val_mul2)
  show "(2 ^ 127 \<le> be_val (arr h data)) = (arr h data ! 0 AND 0x80 \<noteq> 0)"
    using assms by (rule be_val_top_bit)
  show "arr (fst (mul2 h data)) data = replicate 16 0" if "arr h data = replicate 16 0"
    using that by (rule mul2_zero)
  show "arr (fst (mul2 h data)) data ! 15 = push_bit 1 (arr h data ! 15) XOR 0x87"
    if "arr h data ! 0 AND 0x80 \<noteq> 0"
    using that mul2_nth [OF assms, of 15] by simp
  show "arr (fst (mul2 h data)) data ! 15 = push_bit 1 (arr h data ! 15)"
    if "arr h data ! 0 AND 0x80 = 0"
    using that mul2_nth [OF assms, of 15] by simp
qed

theorem mul2_doubles_witness:
  "length (arr (example_heap rfc_K1) 0) = 16 \<and>
   arr (example_heap rfc_K1) 0 ! 0 AND 0x80 \<noteq> 0 \<and>
   arr (fst (mul2 (example_heap rfc_K1) 0)) 0 = rfc_K2 \<and>
   arr (fst (mul2 (example_heap rfc_K1) 0)) 0 ! 15 = push_bit 1 (rfc_K1 ! 15) XOR 0x87 \<and>
   arr (example_heap (aes128 rfc_key zeroBlock)) 0 ! 0 AND 0x80 = 0 \<and>
   arr (fst (mul2 (example_heap (aes128 rfc_key zeroBlock)) 0)) 0 = rfc_K1 \<and>
   arr (fst (mul2 (example_heap (aes128 rfc_key zeroBlock)) 0)) 0 ! 15 =
     push_bit 1 (aes128 rfc_key zeroBlock ! 15) \<and>
   arr (fst (mul2 (example_heap (replicate 16 0)) 0)) 0 = replicate 16 0"
proof -
  have m1: "rfc_K1 ! 0 AND 0x80 \<noteq> 0"
    by (simp add: rfc_K1_def)
  have m2: "aes128 rfc_key zeroBlock ! 0 AND 0x80 = 0"
    by (simp add: aes128_rfc_zero)
  have l2: "length (aes128 rfc_key zeroBlock) = 16"
    by (rule aes128_rfc_key_length)
  have l1: "length (arr (example_heap rfc_K1) 0) = 16"
    by simp
  have l0: "length (arr (example_heap (replicate 16 0)) 0) = 16"
    by simp
  have l2': "length (arr (example_heap (aes128 rfc_key zeroBlock)) 0) = 16"
    using l2 by simp
  note t1 = mul2_doubles [OF l1, unfolded example_heap_simps]
  note t2 = mul2_doubles [OF l2', unfolded example_heap_simps]
  note t0 = mul2_doubles [OF l0, unfolded example_heap_simps]
  have a1: "arr (fst (mul2 (example_heap rfc_K1) 0)) 0 = rfc_K2"
    using t1 [THEN conjunct1] by (simp add: rfc_K2_double)
  have a2: "arr (fst (mul2 (example_heap rfc_K1) 0)) 0 ! 15 = push_bit 1 (rfc_K1 ! 15) XOR 0x87"
    using t1 m1 by blast
  have b1: "arr (fst (mul2 (example_heap (aes128 rfc_key zeroBlock)) 0)) 0 = rfc_K1"
    using t2 [THEN conjunct1] by (simp add: rfc_subkeys)
  have b2: "arr (fst (mul2 (example_heap (aes128 rfc_key zeroBlock)) 0)) 0 ! 15 =
        push_bit 1 (aes128 rfc_key zeroBlock ! 15)"
    using t2 m2 by blast
  have c: "arr (fst (mul2 (example_heap (replicate 16 0)) 0)) 0 = replicate 16 0"
    using t0 by blast
  show ?thesis
    using a1 a2 b1 b2 c m1 m2 l1 by (simp only: example_heap_simps simp_thms)
qed

subsection \<open>C7: what a call changes in the store\<close>

text \<open>
  Claim C7 says that a call leaves the caller's message array and the two subkey arrays
  unchanged. The subkey arrays are left unchanged. The message array is left unchanged when
  the message is empty or its length is not a multiple of 16 (the padding is then done in a
  new array). For a non-empty message whose length is a multiple of 16, \<open>pad\<close> calls
  \<open>rightXorMut\<close> on the caller's array itself: after the call its last 16 bytes are XORed
  with K1.
\<close>

theorem MacFunction_frame:
  assumes "prepared E key h m" and "data < nxt h"
    and "data \<noteq> m_padding m" and "data \<noteq> m_padding2 m"
  shows "\<exists>h' tag. MacFunction E m h data = Inr (h', tag) \<and>
           arr h' (m_padding m) = arr h (m_padding m) \<and>
           arr h' (m_padding2 m) = arr h (m_padding2 m) \<and>
           (arr h data = [] \<or> length (arr h data) mod 16 \<noteq> 0 \<longrightarrow> arr h' data = arr h data) \<and>
           (arr h data \<noteq> [] \<and> length (arr h data) mod 16 = 0 \<longrightarrow>
              arr h' data =
                take (length (arr h data) - 16) (arr h data) @
                xor_bytes (drop (length (arr h data) - 16) (arr h data)) (arr h (m_padding m)))"
proof -
  let ?p = "pad h data (m_padding m) (m_padding2 m)"
  have v: "valid_key_length (key_of (m_cbc m))"
    and a: "m_padding m < nxt h" "m_padding2 m < nxt h"
    and K1: "length (arr h (m_padding m)) = 16"
    using assms(1) by (simp_all add: prepared_def)
  obtain ct tag where r: "MacFunction E m h data = Inr (fst (new_array (fst ?p) ct), tag)"
    using MacFunction_returns [OF v, of E h data] by blast
  let ?h' = "fst (new_array (fst ?p) ct)"
  have other: "arr ?h' r = arr h r" if "r < nxt h" "r \<noteq> data" for r
    using that assms(2) by (intro new_array_after_pad_other)
  have "data \<noteq> nxt (fst ?p)"
    using pad_nxt [of h data "m_padding m" "m_padding2 m"] assms(2) by simp
  then have d: "arr ?h' data = arr (fst ?p) data"
    by (simp add: new_array_def)
  have unchanged: "arr ?h' data = arr h data"
    if "arr h data = [] \<or> length (arr h data) mod 16 \<noteq> 0"
  proof (cases "arr h data = []")
    case True
    then show ?thesis using d by (simp add: pad_def rightXorMut_empty)
  next
    case False
    then have "length (arr h data) mod 16 \<noteq> 0" using that by simp
    then show ?thesis using assms(2) d by (simp add: pad_message_unaligned)
  qed
  have changed: "arr ?h' data =
                take (length (arr h data) - 16) (arr h data) @
                xor_bytes (drop (length (arr h data) - 16) (arr h data)) (arr h (m_padding m))"
    if "arr h data \<noteq> [] \<and> length (arr h data) mod 16 = 0"
  proof -
    have n16: "16 \<le> length (arr h data)"
      using that by (auto simp add: mod_eq_0_iff_dvd dest: dvd_imp_le)
    show ?thesis
      using rightXorMut_aligned [OF assms(3) n16] K1 that d
      by (simp add: pad_aligned_eq)
  qed
  have "arr ?h' (m_padding m) = arr h (m_padding m)"
    using a(1) assms(3) by (intro other) simp_all
  moreover have "arr ?h' (m_padding2 m) = arr h (m_padding2 m)"
    using a(2) assms(4) by (intro other) simp_all
  ultimately show ?thesis
    using r unchanged changed by blast
qed

theorem MacFunction_frame_witness:
  "(\<exists>h' tag. MacFunction aes128 example_mac (example_heap []) 0 = Inr (h', tag) \<and>
      arr h' 0 = [] \<and> arr h' 1 = rfc_K1 \<and> arr h' 2 = rfc_K2) \<and>
   (\<exists>h' tag. MacFunction aes128 example_mac (example_heap (take 5 rfc_message)) 0 = Inr (h', tag) \<and>
      arr h' 0 = take 5 rfc_message \<and> arr h' 1 = rfc_K1 \<and> arr h' 2 = rfc_K2) \<and>
   (\<exists>h' tag. MacFunction aes128 example_mac (example_heap rfc_message) 0 = Inr (h', tag) \<and>
      arr h' 0 = xor_bytes rfc_message rfc_K1 \<and> arr h' 1 = rfc_K1 \<and> arr h' 2 = rfc_K2)"
proof -
  have p: "prepared aes128 rfc_key (example_heap msg) example_mac"
    and q: "0 < nxt (example_heap msg)" "0 \<noteq> m_padding example_mac"
      "0 \<noteq> m_padding2 example_mac" for msg
    by (simp_all add: example_prepared)
  note t = MacFunction_frame [OF p q, unfolded example_heap_simps example_mac_simps]
  have e: "(arr h' 0 = xs \<and> arr h' 1 = rfc_K1 \<and> arr h' 2 = rfc_K2) =
           (arr h' 1 = rfc_K1 \<and> arr h' 2 = rfc_K2 \<and> arr h' 0 = xs)" for h' :: heap and xs
    by blast
  have a: "\<exists>h' tag. MacFunction aes128 example_mac (example_heap []) 0 = Inr (h', tag) \<and>
      arr h' 0 = [] \<and> arr h' 1 = rfc_K1 \<and> arr h' 2 = rfc_K2"
    using t [of "[]"] unfolding e by blast
  have "length (take 5 rfc_message) mod 16 \<noteq> 0"
    by (simp add: rfc_message_5)
  then have b: "\<exists>h' tag. MacFunction aes128 example_mac (example_heap (take 5 rfc_message)) 0 =
        Inr (h', tag) \<and>
      arr h' 0 = take 5 rfc_message \<and> arr h' 1 = rfc_K1 \<and> arr h' 2 = rfc_K2"
    using t [of "take 5 rfc_message"] unfolding e by blast
  have "rfc_message \<noteq> [] \<and> length rfc_message mod 16 = 0"
    by (simp add: rfc_message_def)
  moreover have "take (length rfc_message - 16) rfc_message @
      xor_bytes (drop (length rfc_message - 16) rfc_message) rfc_K1 = xor_bytes rfc_message rfc_K1"
    by simp
  ultimately have c: "\<exists>h' tag. MacFunction aes128 example_mac (example_heap rfc_message) 0 =
        Inr (h', tag) \<and>
      arr h' 0 = xor_bytes rfc_message rfc_K1 \<and> arr h' 1 = rfc_K1 \<and> arr h' 2 = rfc_K2"
    using t [of rfc_message] unfolding e by metis
  show ?thesis
    using a b c by blast
qed

text \<open>
  The counterexample to claim C7: the key of the known-answer vectors, prepared by \<open>CMAC\<close>
  on a store that holds the 16-byte message at reference 0. After the call the caller's
  array holds the message XORed with K1.
\<close>

theorem MacFunction_overwrites_aligned_message:
  "CMAC aes128 example_env (fst (new_array empty_heap rfc_message)) rfc_key =
     Inr (example_heap rfc_message, example_mac) \<and>
   arr (example_heap rfc_message) 0 = rfc_message \<and>
   MacFunction aes128 example_mac (example_heap rfc_message) 0 =
     Inr ((example_heap rfc_message)
            \<lparr>arr := (arr (example_heap rfc_message))
               (0 := [0x90, 0x2f, 0x68, 0xfa, 0x1b, 0x31, 0xac, 0xf0,
                      0x95, 0xb8, 0x9e, 0x9e, 0x01, 0xa5, 0xbf, 0xf4],
                3 := [0x07, 0x0a, 0x16, 0xb4, 0x6b, 0x4d, 0x41, 0x44,
                      0xf7, 0x9b, 0xdd, 0x9d, 0xd0, 0x4a, 0x28, 0x7c]),
              nxt := 4\<rparr>,
          [0x07, 0x0a, 0x16, 0xb4, 0x6b, 0x4d, 0x41, 0x44,
           0xf7, 0x9b, 0xdd, 0x9d, 0xd0, 0x4a, 0x28, 0x7c]) \<and>
   rfc_message \<noteq> [0x90, 0x2f, 0x68, 0xfa, 0x1b, 0x31, 0xac, 0xf0,
                   0x95, 0xb8, 0x9e, 0x9e, 0x01, 0xa5, 0xbf, 0xf4]"
proof -
  have "MacFunction aes128 example_mac (example_heap rfc_message) 0 =
     Inr ((example_heap rfc_message)
            \<lparr>arr := (arr (example_heap rfc_message))
               (0 := [0x90, 0x2f, 0x68, 0xfa, 0x1b, 0x31, 0xac, 0xf0,
                      0x95, 0xb8, 0x9e, 0x9e, 0x01, 0xa5, 0xbf, 0xf4],
                3 := [0x07, 0x0a, 0x16, 0xb4, 0x6b, 0x4d, 0x41, 0x44,
                      0xf7, 0x9b, 0xdd, 0x9d, 0xd0, 0x4a, 0x28, 0x7c]),
              nxt := 4\<rparr>,
          [0x07, 0x0a, 0x16, 0xb4, 0x6b, 0x4d, 0x41, 0x44,
           0xf7, 0x9b, 0xdd, 0x9d, 0xd0, 0x4a, 0x28, 0x7c])"
    using MacFunction_rfc_message [of "NodeCBC rfc_key"] by (simp add: example_mac_def)
  moreover have "rfc_message \<noteq> [0x90, 0x2f, 0x68, 0xfa, 0x1b, 0x31, 0xac, 0xf0,
                   0x95, 0xb8, 0x9e, 0x9e, 0x01, 0xa5, 0xbf, 0xf4]"
    by (simp add: rfc_message_def)
  ultimately show ?thesis
    using CMAC_example [of rfc_message] by simp
qed

subsection \<open>C8: key lengths\<close>

text \<open>
  Claim C8: \<open>CMAC\<close> succeeds for every key of 16, 24 or 32 bytes; for a key of any other
  length it fails with \<open>InvalidKeyLength\<close>; and the closure it returned never fails with
  \<open>InvalidKeyLength\<close>, on any message in any store.
\<close>

theorem key_length_checked_at_prepare:
  "(length key = 16 \<or> length key = 24 \<or> length key = 32 \<longrightarrow>
      (\<exists>h' m. CMAC E e h key = Inr (h', m))) \<and>
   (\<not> (length key = 16 \<or> length key = 24 \<or> length key = 32) \<longrightarrow>
      CMAC E e h key = Inl InvalidKeyLength) \<and>
   (\<forall>h' m h2 data. CMAC E e h key = Inr (h', m) \<longrightarrow>
      MacFunction E m h2 data \<noteq> Inl InvalidKeyLength)"
proof (intro conjI impI allI)
  assume "length key = 16 \<or> length key = 24 \<or> length key = 32"
  then have "valid_key_length key" by (simp add: valid_key_length_def)
  then show "\<exists>h' m. CMAC E e h key = Inr (h', m)" by (rule CMAC_succeeds)
next
  assume "\<not> (length key = 16 \<or> length key = 24 \<or> length key = 32)"
  then have "\<not> valid_key_length key" by (simp add: valid_key_length_def)
  then show "CMAC E e h key = Inl InvalidKeyLength" by (rule CMAC_invalid)
next
  fix h' m h2 data
  assume "CMAC E e h key = Inr (h', m)"
  then have "valid_key_length (key_of (m_cbc m))"
    using CMAC_key by blast
  then have "call_cbc E (m_cbc m) h1 pt \<noteq> Inl InvalidKeyLength" for h1 pt
    by (rule call_cbc_key_accepted)
  then show "MacFunction E m h2 data \<noteq> Inl InvalidKeyLength"
    by (auto simp add: MacFunction_def split: prod.splits sum.splits)
qed

theorem key_length_checked_at_prepare_witness:
  "length rfc_key = 16 \<and>
   CMAC aes128 example_env (fst (new_array empty_heap rfc_message)) rfc_key =
     Inr (example_heap rfc_message, example_mac) \<and>
   MacFunction aes128 example_mac (example_heap rfc_message) 0 \<noteq> Inl InvalidKeyLength \<and>
   length (take 10 rfc_key) = 10 \<and>
   CMAC aes128 example_env (fst (new_array empty_heap rfc_message)) (take 10 rfc_key) =
     Inl InvalidKeyLength"
  using key_length_checked_at_prepare
      [of rfc_key aes128 example_env "(fst (new_array empty_heap rfc_message))"]
    key_length_checked_at_prepare
      [of "take 10 rfc_key" aes128 example_env "(fst (new_array empty_heap rfc_message))"]
    CMAC_example [of rfc_message]
  by (simp add: rfc_key_def)

subsection \<open>C9: the conditionals of \<open>mul2\<close>\<close>

text \<open>
  Claim C9 says that the doubling has no data-dependent branch and takes the constant
  from a bitmask. \<open>mul2\<close> selects it with \<^verbatim>\<open>t ? 0x87 : 0\<close>, and the carry of every byte with
  \<^verbatim>\<open>(data[i + 1] & 0x80) ? 1 : 0\<close>. The outcomes of these sixteen conditionals differ
  between the zero block and the block \<open>80 00 \<dots> 00\<close>: the last one, which selects the
  constant, is taken on the second block only.
\<close>

theorem mul2_conditional_on_top_bit:
  "snd (mul2_traced (example_heap (replicate 16 0)) 0) = replicate 16 False \<and>
   snd (mul2_traced (example_heap (0x80 # replicate 15 0)) 0) = replicate 15 False @ [True] \<and>
   snd (mul2_traced (example_heap (replicate 16 0)) 0) \<noteq>
     snd (mul2_traced (example_heap (0x80 # replicate 15 0)) 0)"
  by (simp add: mul2_traced_def example_heap_def rd_def wr_def replicate_16 replicate_15 upt_0_15)

subsection \<open>C10: the input of the cipher is block-aligned\<close>

text \<open>
  Claim C10: the array that \<open>MacFunction\<close> passes to the cipher closure, the one \<open>pad\<close>
  returns, has a length that is a multiple of 16: the length of the message when that is
  a multiple of 16 (0 for the empty message), the next multiple of 16 otherwise. So the
  closure never fails on a misaligned input.
\<close>

theorem cipher_input_block_aligned:
  "length (arr (fst (pad h data p p2)) (snd (pad h data p p2))) mod 16 = 0 \<and>
   length (arr (fst (pad h data p p2)) (snd (pad h data p p2))) =
     (if length (arr h data) mod 16 = 0 then length (arr h data)
      else length (arr h data) + (16 - length (arr h data) mod 16)) \<and>
   (arr h data = [] \<longrightarrow> arr (fst (pad h data p p2)) (snd (pad h data p p2)) = []) \<and>
   MacFunction E m h data \<noteq> Inl MalformedInput"
proof (intro conjI impI)
  show "length (arr (fst (pad h data p p2)) (snd (pad h data p p2))) mod 16 = 0"
    by (rule pad_result_aligned)
  show "length (arr (fst (pad h data p p2)) (snd (pad h data p p2))) =
     (if length (arr h data) mod 16 = 0 then length (arr h data)
      else length (arr h data) + (16 - length (arr h data) mod 16))"
    by (rule pad_result_length)
  show "arr (fst (pad h data p p2)) (snd (pad h data p p2)) = []" if "arr h data = []"
    using that by (simp add: pad_def rightXorMut_empty)
  have "call_cbc E (m_cbc m) (fst (pad h data (m_padding m) (m_padding2 m)))
          (arr (fst (pad h data (m_padding m) (m_padding2 m)))
               (snd (pad h data (m_padding m) (m_padding2 m)))) \<noteq> Inl MalformedInput"
    using pad_result_aligned by (rule call_cbc_not_malformed)
  then show "MacFunction E m h data \<noteq> Inl MalformedInput"
    by (auto simp add: MacFunction_def split: prod.splits sum.splits)
qed

theorem cipher_input_block_aligned_witness:
  "arr (example_heap []) 0 = [] \<and>
   arr (fst (pad (example_heap []) 0 1 2)) (snd (pad (example_heap []) 0 1 2)) = [] \<and>
   length (arr (fst (pad (example_heap (take 5 rfc_message)) 0 1 2))
               (snd (pad (example_heap (take 5 rfc_message)) 0 1 2))) = 16 \<and>
   MacFunction aes128 example_mac (example_heap []) 0 \<noteq> Inl MalformedInput"
  using cipher_input_block_aligned [of "example_heap []" 0 1 2 aes128 example_mac]
    cipher_input_block_aligned [of "example_heap (take 5 rfc_message)" 0 1 2 aes128 example_mac]
  by (simp add: rfc_message_def)

end
